theory Spec2Isabelle
  imports Main "HOL-Library.Signed_Division"
begin

section \<open>Constants and helper macros of game.cc\<close>

text \<open>
  Cells are C++ \<open>char\<close>s and positions and scores are C++ \<open>int\<close>s. No arithmetic is
  ever done on a cell, and every position and score that occurs on a well-formed board is
  far inside the 32-bit range, so both are modelled as \<open>int\<close>.
  The constant \<open>INF\<close> of the source is called \<open>INF_VALUE\<close> here, because \<open>INF\<close> is
  reserved syntax of HOL.
\<close>

definition BORDER :: int where "BORDER = 5"
definition EMPTY :: int where "EMPTY = 0"
definition P1 :: int where "P1 = 1"
definition P2 :: int where "P2 = 2"
definition LOSS_VALUE :: int where "LOSS_VALUE = - 1000"
definition WIN_VALUE :: int where "WIN_VALUE = 1000"
definition INF_VALUE :: int where "INF_VALUE = 1000000"
definition MOVES :: "int list" where "MOVES = [1, - 1, 7, - 7, 6, - 6, 8, - 8]"
definition SCORE_PER_CELL :: int where "SCORE_PER_CELL = 16"

definition OPPONENT :: "int \<Rightarrow> int" where
  "OPPONENT p = (if p = P1 then P2 else P1)"

text \<open>C++ \<open>/\<close> and \<open>%\<close> truncate towards zero: \<open>sdiv\<close> and \<open>smod\<close>.\<close>

definition POS_TO_X :: "int \<Rightarrow> int" where
  "POS_TO_X pos = (pos - 8) sdiv 7"

definition POS_TO_Y :: "int \<Rightarrow> int" where
  "POS_TO_Y pos = (pos - 8) smod 7"

definition XY_TO_POS :: "int \<Rightarrow> int \<Rightarrow> int" where
  "XY_TO_POS x y = x * 7 + y + 8"

section \<open>Arrays\<close>

text \<open>
  A C++ array is a list; an access outside the array is undefined behaviour in C++ and
  is the result \<open>None\<close> in the model. Every function that reads or writes an array
  therefore returns an \<open>option\<close>.
\<close>

definition rd :: "'a list \<Rightarrow> int \<Rightarrow> 'a option" where
  "rd xs i = (if 0 \<le> i \<and> i < int (length xs) then Some (xs ! nat i) else None)"

definition wr :: "'a list \<Rightarrow> int \<Rightarrow> 'a \<Rightarrow> 'a list option" where
  "wr xs i v = (if 0 \<le> i \<and> i < int (length xs) then Some (xs[nat i := v]) else None)"

section \<open>Board\<close>

record Board =
  board :: "int list"
  p1 :: int
  p2 :: int

text \<open>
  The constructor: the first loop writes the ring of sentinels, the second the inner
  5x5 region; together they write all 49 cells, so the content the array starts with
  (unspecified in C++) does not matter.
\<close>

definition Board_border_loop :: "int list \<Rightarrow> int list" where
  "Board_border_loop brd =
     fold (\<lambda>i a. a[0 * 7 + i := BORDER, i * 7 + 0 := BORDER, 6 * 7 + i := BORDER, i * 7 + 6 := BORDER])
       [0 ..< 7] brd"

definition Board_inner_loop :: "int list \<Rightarrow> int list" where
  "Board_inner_loop brd =
     fold (\<lambda>i a. fold (\<lambda>j a'. a'[i * 7 + j := EMPTY]) [1 ..< 6] a) [1 ..< 6] brd"

definition Board_new :: Board where
  "Board_new =
     \<lparr> board = Board_inner_loop (Board_border_loop (replicate 49 BORDER)), p1 = 0, p2 = 0 \<rparr>"

definition isLegal :: "Board \<Rightarrow> int \<Rightarrow> int \<Rightarrow> bool option" where
  "isLegal b x y = map_option (\<lambda>c. c = EMPTY) (rd (board b) (x * 7 + y + 8))"

definition play :: "Board \<Rightarrow> int \<Rightarrow> int \<Rightarrow> int \<Rightarrow> Board option" where
  "play b x y player =
     (let pos = x * 7 + y + 8 in
      case wr (board b) pos player of
        None \<Rightarrow> None
      | Some brd \<Rightarrow>
          if player = P1 then Some (b\<lparr>board := brd, p1 := pos\<rparr>)
          else Some (b\<lparr>board := brd, p2 := pos\<rparr>))"

text \<open>
  \<open>hasLost\<close>: the chain of \<open>||\<close> reads the eight neighbours in the order written in the
  source and stops at the first one that is 0.
\<close>

fun some_empty :: "int list \<Rightarrow> int \<Rightarrow> int list \<Rightarrow> bool option" where
  "some_empty brd i [] = Some False"
| "some_empty brd i (d # ds) =
     (case rd brd (i + d) of
        None \<Rightarrow> None
      | Some c \<Rightarrow> if c = 0 then Some True else some_empty brd i ds)"

definition hasLost :: "Board \<Rightarrow> int \<Rightarrow> bool option" where
  "hasLost b i =
     (if i = 0 then Some False
      else case some_empty (board b) i [1, - 1, 7, - 7, 6, - 6, 8, - 8] of
        None \<Rightarrow> None
      | Some e \<Rightarrow> if e then Some False else Some True)"

section \<open>Mirror\<close>

definition Mirror_getMove :: "Board \<Rightarrow> int \<Rightarrow> int \<Rightarrow> int" where
  "Mirror_getMove b player max_depth =
     (let pp = (if player = P1 then p2 b else p1 b);
          px = POS_TO_X pp;
          py = POS_TO_Y pp;
          x = 4 - px;
          y = 4 - py
      in XY_TO_POS x y)"

section \<open>DijkstraScorer\<close>

text \<open>
  The innermost \<open>while (true)\<close> of \<open>dijkstra\<close>: walk from \<open>p\<close> in direction \<open>move\<close>,
  marking and enqueueing cells, until a cell is not empty or already has a distance.
  The state is the array \<open>steps\<close> and the queue.
\<close>

partial_function (option) dijkstra_ray ::
  "int list \<Rightarrow> int \<Rightarrow> int \<Rightarrow> int \<Rightarrow> int list \<Rightarrow> int list \<Rightarrow> (int list \<times> int list) option"
where
  "dijkstra_ray brd move step p steps q =
     (let p = p + move in
      case rd brd p of
        None \<Rightarrow> None
      | Some cell \<Rightarrow>
          if cell \<noteq> EMPTY then Some (steps, q)
          else case rd steps p of
            None \<Rightarrow> None
          | Some s \<Rightarrow>
              if s \<noteq> - 1 then Some (steps, q)
              else dijkstra_ray brd move step p (steps[nat p := step]) (q @ [p]))"

declare dijkstra_ray.simps [code]

fun dijkstra_dirs ::
  "int list \<Rightarrow> int \<Rightarrow> int \<Rightarrow> int list \<Rightarrow> int list \<Rightarrow> int list \<Rightarrow> (int list \<times> int list) option"
where
  "dijkstra_dirs brd pos step [] steps q = Some (steps, q)"
| "dijkstra_dirs brd pos step (move # ms) steps q =
     (case dijkstra_ray brd move step pos steps q of
        None \<Rightarrow> None
      | Some (steps', q') \<Rightarrow> dijkstra_dirs brd pos step ms steps' q')"

text \<open>
  The outer \<open>while (!q.empty())\<close>. It returns the two counters and, for the claims about
  the recorded distances, the final array \<open>steps\<close>.
\<close>

partial_function (option) dijkstra_loop ::
  "int list \<Rightarrow> int list \<Rightarrow> int list \<Rightarrow> int \<Rightarrow> int \<Rightarrow> (int \<times> int \<times> int list) option"
where
  "dijkstra_loop brd q steps total_cells total_steps =
     (case q of
        [] \<Rightarrow> Some (total_cells, total_steps, steps)
      | pos # q' \<Rightarrow>
          (case rd steps pos of
             None \<Rightarrow> None
           | Some s \<Rightarrow>
               (case dijkstra_dirs brd pos (s + 1) MOVES steps q' of
                  None \<Rightarrow> None
                | Some (steps', q'') \<Rightarrow>
                    dijkstra_loop brd q'' steps' (total_cells + 1) (total_steps + s))))"

declare dijkstra_loop.simps [code]

definition dijkstra_run :: "Board \<Rightarrow> int \<Rightarrow> (int \<times> int \<times> int list) option" where
  "dijkstra_run b player =
     (let pos = (if player = P1 then p1 b else p2 b) in
      case wr (replicate 49 (- 1)) pos 0 of
        None \<Rightarrow> None
      | Some steps \<Rightarrow> dijkstra_loop (board b) [pos] steps 0 0)"

definition dijkstra :: "Board \<Rightarrow> int \<Rightarrow> int option" where
  "dijkstra b player =
     (case dijkstra_run b player of
        None \<Rightarrow> None
      | Some (total_cells, total_steps, steps) \<Rightarrow>
          Some (total_cells * SCORE_PER_CELL - total_steps))"

definition getScore :: "Board \<Rightarrow> int \<Rightarrow> int option" where
  "getScore b player =
     (case dijkstra b player of
        None \<Rightarrow> None
      | Some mine \<Rightarrow>
          (case dijkstra b (OPPONENT player) of
             None \<Rightarrow> None
           | Some theirs \<Rightarrow> Some (mine - theirs)))"

section \<open>Negamax\<close>

text \<open>
  The search mutates the board in place, so the board is threaded through every call and
  returned. The out-parameter \<open>best_move\<close> is an \<open>int option\<close>: \<open>None\<close> is the NULL
  pointer, \<open>Some m\<close> a pointer to a variable that holds \<open>m\<close>. The counter
  \<open>depth_count\<close> is written and never read; it is left out.

  The scorer is the \<open>DijkstraScorer\<close> that the default constructor installs.

  The recursion of \<open>negamax\<close> is bounded by \<open>fuel\<close>, the number of nested calls the
  stack may hold; \<open>None\<close> is the result when the fuel runs out, and, as everywhere,
  when an array is accessed out of bounds.

  \<open>negamax_ray\<close> is the \<open>while (true)\<close> for one direction and \<open>negamax_dirs\<close> the
  \<open>for\<close> over the eight directions; \<open>rec\<close> is the recursive call. \<open>Inl\<close> is the
  \<open>return best_score\<close> of the cutoff inside the loop, \<open>Inr\<close> the \<open>break\<close>.
\<close>

type_synonym search = "Board \<times> int \<times> int \<times> int option"

partial_function (option) negamax_ray ::
  "(Board \<Rightarrow> int \<Rightarrow> int \<Rightarrow> int \<Rightarrow> (int \<times> Board) option) \<Rightarrow> int \<Rightarrow> int \<Rightarrow> int \<Rightarrow> int \<Rightarrow>
   Board \<Rightarrow> int \<Rightarrow> int \<Rightarrow> int option \<Rightarrow> ((int \<times> Board \<times> int option) + search) option"
where
  "negamax_ray rec player beta move pos b alpha best_score best_move =
     (let pos = pos + move in
      case rd (board b) pos of
        None \<Rightarrow> None
      | Some cell \<Rightarrow>
          if cell \<noteq> EMPTY then Some (Inr (b, alpha, best_score, best_move))
          else
            (case rec (b\<lparr>board := (board b)[nat pos := player]\<rparr>) pos (- beta) (- alpha) of
               None \<Rightarrow> None
             | Some (r, b') \<Rightarrow>
                 (let score = - 1 * r;
                      b'' = b'\<lparr>board := (board b')[nat pos := 0]\<rparr>;
                      best_move' = (if score > best_score
                                    then (case best_move of None \<Rightarrow> None | Some m \<Rightarrow> Some pos)
                                    else best_move);
                      best_score' = (if score > best_score then score else best_score);
                      alpha' = (if alpha \<ge> score then alpha else score)
                  in if alpha' \<ge> beta then Some (Inl (best_score', b'', best_move'))
                     else negamax_ray rec player beta move pos b'' alpha' best_score' best_move')))"

declare negamax_ray.simps [code]

fun negamax_dirs ::
  "(Board \<Rightarrow> int \<Rightarrow> int \<Rightarrow> int \<Rightarrow> (int \<times> Board) option) \<Rightarrow> int \<Rightarrow> int \<Rightarrow> int \<Rightarrow> int list \<Rightarrow>
   Board \<Rightarrow> int \<Rightarrow> int \<Rightarrow> int option \<Rightarrow> (int \<times> Board \<times> int option) option"
where
  "negamax_dirs rec player beta ap_pos [] b alpha best_score best_move =
     Some (best_score, b, best_move)"
| "negamax_dirs rec player beta ap_pos (move # ms) b alpha best_score best_move =
     (case negamax_ray rec player beta move ap_pos b alpha best_score best_move of
        None \<Rightarrow> None
      | Some (Inl r) \<Rightarrow> Some r
      | Some (Inr (b', alpha', best_score', best_move')) \<Rightarrow>
          negamax_dirs rec player beta ap_pos ms b' alpha' best_score' best_move')"

fun negamax ::
  "nat \<Rightarrow> int \<Rightarrow> Board \<Rightarrow> int \<Rightarrow> int \<Rightarrow> int \<Rightarrow> int \<Rightarrow> int \<Rightarrow> int option \<Rightarrow>
   (int \<times> Board \<times> int option) option"
where
  "negamax 0 max_depth b ap_pos pp_pos depth alpha beta best_move = None"
| "negamax (Suc fuel) max_depth b ap_pos pp_pos depth alpha beta best_move =
     (case hasLost b ap_pos of
        None \<Rightarrow> None
      | Some True \<Rightarrow> Some (LOSS_VALUE + depth, b, best_move)
      | Some False \<Rightarrow>
          (case rd (board b) ap_pos of
             None \<Rightarrow> None
           | Some player \<Rightarrow>
               if depth = max_depth then
                 (case getScore b player of
                    None \<Rightarrow> None
                  | Some score \<Rightarrow> Some (score, b, best_move))
               else
                 negamax_dirs
                   (\<lambda>b' pos alpha' beta'.
                      map_option (\<lambda>r. (fst r, fst (snd r)))
                        (negamax fuel max_depth b' pp_pos pos (depth + 1) alpha' beta' None))
                   player beta ap_pos MOVES b alpha (- INF_VALUE) best_move))"

definition getMove :: "nat \<Rightarrow> Board \<Rightarrow> int \<Rightarrow> int \<Rightarrow> (int \<times> Board) option" where
  "getMove fuel b player max_depth =
     (let ap_pos = (if player = P1 then p1 b else p2 b);
          pp_pos = (if player = P1 then p2 b else p1 b)
      in case negamax fuel max_depth b ap_pos pp_pos 1 (- INF_VALUE) INF_VALUE (Some 0) of
           None \<Rightarrow> None
         | Some (score, b', move) \<Rightarrow>
             (case move of None \<Rightarrow> None | Some m \<Rightarrow> Some (m, b')))"

section \<open>Well-formed boards\<close>

text \<open>
  A playable position is a cell of the inner 5x5 region: row and column between 1 and 5
  of the 7x7 array. A grid is well formed when it has its 49 cells and every cell outside
  the inner region is not empty (the ring of sentinels). On a well-formed board both
  players are placed: each stored position is playable and holds its player's mark.
\<close>

definition inner :: "int \<Rightarrow> bool" where
  "inner pos \<longleftrightarrow> 1 \<le> pos div 7 \<and> pos div 7 \<le> 5 \<and> 1 \<le> pos mod 7 \<and> pos mod 7 \<le> 5"

definition wf_grid :: "int list \<Rightarrow> bool" where
  "wf_grid brd \<longleftrightarrow>
     length brd = 49 \<and> (\<forall>i \<in> set [0 ..< 49]. inner (int i) \<or> brd ! i \<noteq> EMPTY)"

definition wf_board :: "Board \<Rightarrow> bool" where
  "wf_board b \<longleftrightarrow>
     wf_grid (board b) \<and> inner (p1 b) \<and> inner (p2 b) \<and>
     rd (board b) (p1 b) = Some P1 \<and> rd (board b) (p2 b) = Some P2"

text \<open>
  Two boards to run the code on. On \<open>board_open\<close> player one stands on row 2 and player
  two on row 4 of the last column and every other cell is empty. On \<open>board_stuck\<close>
  each player sits in a corner, walled in by its own trail.
\<close>

definition board_open :: Board where
  "board_open =
     \<lparr> board = [5, 5, 5, 5, 5, 5, 5,
                 5, 0, 0, 0, 0, 0, 5,
                 5, 0, 0, 0, 0, 1, 5,
                 5, 0, 0, 0, 0, 0, 5,
                 5, 0, 0, 0, 0, 2, 5,
                 5, 0, 0, 0, 0, 0, 5,
                 5, 5, 5, 5, 5, 5, 5], p1 = 19, p2 = 33 \<rparr>"

definition board_stuck :: Board where
  "board_stuck =
     \<lparr> board = [5, 5, 5, 5, 5, 5, 5,
                 5, 1, 1, 0, 0, 0, 5,
                 5, 1, 1, 0, 0, 0, 5,
                 5, 0, 0, 0, 0, 0, 5,
                 5, 0, 0, 0, 2, 2, 5,
                 5, 0, 0, 0, 2, 2, 5,
                 5, 5, 5, 5, 5, 5, 5], p1 = 8, p2 = 40 \<rparr>"

section \<open>Sequences of play calls\<close>

text \<open>
  The driver calls \<open>play\<close> again and again on one board. \<open>plays\<close> runs a list of
  calls \<open>(x, y, player)\<close>; \<open>legal_plays\<close> says that each call is made by player one
  or two on a cell that \<open>isLegal\<close> reports empty at that moment. \<open>marks b m\<close> is the
  set of cells that hold the mark \<open>m\<close>, \<open>trail m ms\<close> the cells player \<open>m\<close> played on,
  in order, and \<open>stored b m\<close> the position field of player \<open>m\<close>.
\<close>

fun plays :: "Board \<Rightarrow> (int \<times> int \<times> int) list \<Rightarrow> Board option" where
  "plays b [] = Some b"
| "plays b ((x, y, player) # ms) =
     (case play b x y player of None \<Rightarrow> None | Some b' \<Rightarrow> plays b' ms)"

fun legal_plays :: "Board \<Rightarrow> (int \<times> int \<times> int) list \<Rightarrow> bool" where
  "legal_plays b [] = True"
| "legal_plays b ((x, y, player) # ms) =
     (isLegal b x y = Some True \<and> (player = P1 \<or> player = P2) \<and>
      (case play b x y player of None \<Rightarrow> False | Some b' \<Rightarrow> legal_plays b' ms))"

definition marks :: "Board \<Rightarrow> int \<Rightarrow> int set" where
  "marks b m = {i. 0 \<le> i \<and> i < int (length (board b)) \<and> board b ! nat i = m}"

definition trail :: "int \<Rightarrow> (int \<times> int \<times> int) list \<Rightarrow> int list" where
  "trail m ms =
     map (\<lambda>(x, y, player). XY_TO_POS x y) (filter (\<lambda>(x, y, player). player = m) ms)"

definition stored :: "Board \<Rightarrow> int \<Rightarrow> int" where
  "stored b m = (if m = P1 then p1 b else p2 b)"

text \<open>The board after player one placed at (0, 0), player two at (0, 1) and player one
  moved to (1, 0).\<close>

definition board_trail :: Board where
  "board_trail =
     \<lparr> board = [5, 5, 5, 5, 5, 5, 5,
                 5, 1, 2, 0, 0, 0, 5,
                 5, 1, 0, 0, 0, 0, 5,
                 5, 0, 0, 0, 0, 0, 5,
                 5, 0, 0, 0, 0, 0, 5,
                 5, 0, 0, 0, 0, 0, 5,
                 5, 5, 5, 5, 5, 5, 5], p1 = 15, p2 = 9 \<rparr>"

section \<open>Move generation as the specification describes it\<close>

text \<open>
  The cells a token at \<open>pos\<close> can move to: in each of the eight directions, the cells
  met by stepping from \<open>pos\<close> up to, and without, the first cell that is not empty
  (or not on the array).
\<close>

function ray_cells :: "int list \<Rightarrow> int \<Rightarrow> int \<Rightarrow> int list" where
  "ray_cells brd pos move =
     (if move \<noteq> 0 \<and> rd brd (pos + move) = Some EMPTY
      then (pos + move) # ray_cells brd (pos + move) move
      else [])"
  by pat_completeness auto
termination
  by (relation "measure (\<lambda>(brd, pos, move).
        if 0 < move then nat (int (length brd) - pos) else nat (pos + 1))")
     (auto simp: rd_def split: if_splits)

declare ray_cells.simps [simp del]

definition ray_moves :: "int list \<Rightarrow> int \<Rightarrow> int list" where
  "ray_moves brd pos = concat (map (ray_cells brd pos) MOVES)"

text \<open>The array \<open>steps\<close> that \<open>dijkstra\<close> ends with for player one on \<open>board_open\<close>.\<close>

definition steps_open :: "int list" where
  "steps_open =
     [- 1, - 1, - 1, - 1, - 1, - 1, - 1,
      - 1, 2, 2, 2, 1, 1, - 1,
      - 1, 1, 1, 1, 1, 0, - 1,
      - 1, 2, 2, 2, 1, 1, - 1,
      - 1, 2, 2, 1, 2, - 1, - 1,
      - 1, 2, 1, 2, 2, 3, - 1,
      - 1, - 1, - 1, - 1, - 1, - 1, - 1]"

text \<open>A board in the middle of a game.\<close>

definition board_mid :: Board where
  "board_mid =
     \<lparr> board = [5, 5, 5, 5, 5, 5, 5,
                 5, 1, 1, 0, 0, 0, 5,
                 5, 0, 1, 0, 2, 0, 5,
                 5, 0, 0, 0, 2, 0, 5,
                 5, 0, 0, 0, 0, 0, 5,
                 5, 0, 0, 0, 0, 0, 5,
                 5, 5, 5, 5, 5, 5, 5], p1 = 16, p2 = 25 \<rparr>"

section \<open>Invariant of the flood fill\<close>

text \<open>
  \<open>marked steps\<close> are the cells that have a distance. Between two iterations of the
  loops of \<open>dijkstra\<close>, with \<open>tc\<close> cells dequeued so far: the queue holds distinct
  marked cells, every marked cell is playable, the marked cells are the dequeued ones and
  the queued ones, and the distance of the \<open>j\<close>-th queued cell is at most \<open>tc + j\<close>.
\<close>

definition marked :: "int list \<Rightarrow> int set" where
  "marked steps = {p. 0 \<le> p \<and> p < int (length steps) \<and> steps ! nat p \<noteq> - 1}"

definition bfs_inv :: "int list \<Rightarrow> int list \<Rightarrow> int \<Rightarrow> bool" where
  "bfs_inv steps q tc \<longleftrightarrow>
     length steps = 49 \<and> distinct q \<and> set q \<subseteq> marked steps \<and> marked steps \<subseteq> {p. inner p} \<and>
     int (card (marked steps)) = tc + int (length q) \<and>
     (\<forall>j < length q. 0 \<le> steps ! nat (q ! j) \<and> steps ! nat (q ! j) \<le> tc + int j)"

section \<open>Exhaustive search\<close>

text \<open>
  The search the pruned one is compared with: the same two terminal rules, and at an
  inner node the maximum, starting from \<open>- INF_VALUE\<close>, of the negated values of all
  the moves of the active player, each searched one ply deeper on the board with the
  move made. No window, no cutoff; the board is a value, so nothing is undone. The fuel
  bounds the nesting as in \<open>negamax\<close>.
\<close>

fun exhaustive :: "nat \<Rightarrow> int \<Rightarrow> Board \<Rightarrow> int \<Rightarrow> int \<Rightarrow> int \<Rightarrow> int option" where
  "exhaustive 0 max_depth b ap_pos pp_pos depth = None"
| "exhaustive (Suc fuel) max_depth b ap_pos pp_pos depth =
     (case hasLost b ap_pos of
        None \<Rightarrow> None
      | Some True \<Rightarrow> Some (LOSS_VALUE + depth)
      | Some False \<Rightarrow>
          (case rd (board b) ap_pos of
             None \<Rightarrow> None
           | Some player \<Rightarrow>
               if depth = max_depth then getScore b player
               else
                 map_option (\<lambda>scores. fold max scores (- INF_VALUE))
                   (those (map
                      (\<lambda>pos. map_option uminus
                         (exhaustive fuel max_depth (b\<lparr>board := (board b)[nat pos := player]\<rparr>)
                            pp_pos pos (depth + 1)))
                      (ray_moves (board b) ap_pos)))))"

section \<open>Notions for the proofs about the search\<close>

text \<open>
  \<open>empties\<close> counts the empty cells; every nested call of the search fills one.
  \<open>node_ok\<close> is what holds at every node of the search of a well-formed board: the grid
  is well formed, the stored positions are playable, and the active and the passive
  position are playable cells that are not empty.
\<close>

definition empties :: "int list \<Rightarrow> nat" where
  "empties brd = count_list brd EMPTY"

definition node_ok :: "Board \<Rightarrow> int \<Rightarrow> int \<Rightarrow> bool" where
  "node_ok b ap pp \<longleftrightarrow>
     wf_grid (board b) \<and> inner (p1 b) \<and> inner (p2 b) \<and> inner ap \<and> inner pp \<and>
     board b ! nat ap \<noteq> EMPTY \<and> board b ! nat pp \<noteq> EMPTY"

text \<open>
  \<open>ab_loop\<close> is the double loop of \<open>negamax\<close> over an explicit list of moves, with
  the value \<open>cv pos a b\<close> of the recursive call in place of the call: \<open>Inl\<close> is the
  cutoff, \<open>Inr\<close> the end of the list. \<open>fail_soft v e alpha beta\<close> relates a value \<open>v\<close>
  found with the window \<open>(alpha, beta)\<close> to the exact value \<open>e\<close>.
\<close>

fun ab_loop ::
  "(int \<Rightarrow> int \<Rightarrow> int \<Rightarrow> int) \<Rightarrow> int \<Rightarrow> int list \<Rightarrow> int \<Rightarrow> int \<Rightarrow> int option \<Rightarrow>
   (int \<times> int option) + (int \<times> int \<times> int option)"
where
  "ab_loop cv beta [] alpha best bm = Inr (alpha, best, bm)"
| "ab_loop cv beta (pos # ps) alpha best bm =
     (let score = - cv pos (- beta) (- alpha);
          bm' = (if score > best then (case bm of None \<Rightarrow> None | Some m \<Rightarrow> Some pos) else bm);
          best' = (if score > best then score else best);
          alpha' = (if alpha \<ge> score then alpha else score)
      in if alpha' \<ge> beta then Inl (best', bm') else ab_loop cv beta ps alpha' best' bm')"

fun ab_value :: "(int \<times> int option) + (int \<times> int \<times> int option) \<Rightarrow> int" where
  "ab_value (Inl (s, m)) = s"
| "ab_value (Inr (a, s, m)) = s"

fun ab_move :: "(int \<times> int option) + (int \<times> int \<times> int option) \<Rightarrow> int option" where
  "ab_move (Inl (s, m)) = m"
| "ab_move (Inr (a, s, m)) = m"

definition fail_soft :: "int \<Rightarrow> int \<Rightarrow> int \<Rightarrow> int \<Rightarrow> bool" where
  "fail_soft v e alpha beta \<longleftrightarrow>
     (v \<le> alpha \<longrightarrow> e \<le> v) \<and> (beta \<le> v \<longrightarrow> v \<le> e) \<and> (alpha < v \<and> v < beta \<longrightarrow> e = v)"

text \<open>A board late in a game, with eleven empty cells.\<close>

definition board_end :: Board where
  "board_end =
     \<lparr> board = [5, 5, 5, 5, 5, 5, 5,
                 5, 1, 1, 0, 2, 0, 5,
                 5, 0, 1, 1, 2, 2, 5,
                 5, 0, 1, 2, 2, 0, 5,
                 5, 1, 1, 0, 2, 0, 5,
                 5, 0, 1, 2, 0, 0, 5,
                 5, 5, 5, 5, 5, 5, 5], p1 = 16, p2 = 25 \<rparr>"

section \<open>Geometry of the grid\<close>

lemma inner_bounds: "inner p \<Longrightarrow> 8 \<le> p \<and> p \<le> 40"
  unfolding inner_def by presburger

lemma inner_step_range: "inner p \<Longrightarrow> d \<in> set MOVES \<Longrightarrow> 0 \<le> p + d \<and> p + d < 49"
  using inner_bounds[of p] by (auto simp: MOVES_def)

lemma wf_grid_empty_inner:
  "wf_grid brd \<Longrightarrow> 0 \<le> i \<Longrightarrow> i < 49 \<Longrightarrow> brd ! nat i = EMPTY \<Longrightarrow> inner i"
  unfolding wf_grid_def by (auto dest!: bspec[where x="nat i"])

lemma inner_image: "{p. inner p} = (\<lambda>(r, c). 7 * r + c) ` ({1..5} \<times> {1..5})"
proof (intro set_eqI iffI)
  fix p assume "p \<in> {p. inner p}"
  then have "(p div 7, p mod 7) \<in> {1..5} \<times> {1..5}" by (auto simp: inner_def)
  moreover have "p = (\<lambda>(r, c). 7 * r + c) (p div 7, p mod 7)" by simp
  ultimately show "p \<in> (\<lambda>(r, c). 7 * r + c) ` ({1..5} \<times> {1..5})" by (rule rev_image_eqI)
next
  fix p :: int assume "p \<in> (\<lambda>(r, c). 7 * r + c) ` ({1..5} \<times> {1..5})"
  then obtain r c where "p = 7 * r + c" "1 \<le> r" "r \<le> 5" "1 \<le> c" "c \<le> 5" by auto
  then show "p \<in> {p. inner p}" by (simp add: inner_def)
qed

lemma finite_inner: "finite {p. inner p}"
  unfolding inner_image by simp

lemma card_inner: "card {p. inner p} \<le> 25"
proof -
  have "card ((\<lambda>(r, c). 7 * r + c) ` ({1..5::int} \<times> {1..5::int}))
          \<le> card ({1..5::int} \<times> {1..5::int})"
    by (rule card_image_le) simp
  then show ?thesis unfolding inner_image by simp
qed

lemma wf_board_open: "wf_board board_open"
  by code_simp

lemma wf_board_stuck: "wf_board board_stuck"
  by code_simp

section \<open>Loss detection\<close>

text \<open>
  C6: at a playable position \<open>hasLost\<close> is true exactly when the eight cells at the
  offsets 1, -1, 6, -6, 7, -7, 8, -8 are all non-empty, and \<open>hasLost 0\<close> is false on
  every board.
\<close>

theorem hasLost_neighbours:
  "(length (board b) = 49 \<and> inner pos \<longrightarrow>
      hasLost b pos
        = Some (\<forall>d \<in> set [1, - 1, 6, - 6, 7, - 7, 8, - 8]. board b ! nat (pos + d) \<noteq> EMPTY))
   \<and> hasLost b 0 = Some False"
proof (intro conjI impI)
  show "hasLost b 0 = Some False" by (simp add: hasLost_def)
next
  assume a: "length (board b) = 49 \<and> inner pos"
  then have "8 \<le> pos" "pos \<le> 40" using inner_bounds by auto
  with a show "hasLost b pos
      = Some (\<forall>d \<in> set [1, - 1, 6, - 6, 7, - 7, 8, - 8]. board b ! nat (pos + d) \<noteq> EMPTY)"
    by (auto simp: hasLost_def rd_def EMPTY_def)
qed

theorem hasLost_neighbours_witness:
  "length (board board_stuck) = 49 \<and> inner 8 \<and> hasLost board_stuck 8 = Some True
   \<and> length (board board_open) = 49 \<and> inner 19 \<and> hasLost board_open 19 = Some False"
  using hasLost_neighbours[of board_stuck 8] hasLost_neighbours[of board_open 19]
  by (simp add: board_stuck_def board_open_def inner_def EMPTY_def)

section \<open>The loss check of negamax\<close>

text \<open>
  C7: when the active player's token has no single-step move, \<open>negamax\<close> returns
  \<open>LOSS_VALUE + depth\<close> with the board and the out-parameter untouched, whatever the
  depth is; in particular at \<open>depth = max_depth\<close>, so the check comes before the horizon
  check, and before any move is generated.
\<close>

theorem negamax_loss_first:
  "hasLost b ap_pos = Some True \<Longrightarrow>
   negamax (Suc fuel) max_depth b ap_pos pp_pos depth alpha beta best_move
     = Some (LOSS_VALUE + depth, b, best_move)"
  by simp

theorem negamax_loss_first_witness:
  "hasLost board_stuck 8 = Some True \<and>
   negamax (Suc 0) 1 board_stuck 8 40 1 (- INF_VALUE) INF_VALUE (Some 0)
     = Some (LOSS_VALUE + 1, board_stuck, Some 0)"
proof -
  have h: "hasLost board_stuck 8 = Some True"
    by (simp add: hasLost_def board_stuck_def rd_def)
  from h negamax_loss_first[OF h, of 0 1 40 1 "- INF_VALUE" INF_VALUE "Some 0"]
  show ?thesis by simp
qed

section \<open>Mirror\<close>

lemma sdiv7_nonneg: "0 \<le> (k::int) \<Longrightarrow> k sdiv 7 = k div 7"
  by (auto simp: signed_divide_int_def sgn_if)

lemma smod7_nonneg: "0 \<le> (k::int) \<Longrightarrow> k smod 7 = k mod 7"
  by (auto simp: signed_modulo_int_def sgn_if)

text \<open>
  C8: when the opponent stands on the inner coordinate \<open>(x, y)\<close>, \<open>Mirror::getMove\<close>
  returns the index of \<open>(4 - x, 4 - y)\<close>. The result depends neither on \<open>max_depth\<close>
  nor on the cells of the board, so no legality check takes part in it.
\<close>

theorem Mirror_getMove_reflects:
  "0 \<le> x \<Longrightarrow> x \<le> 4 \<Longrightarrow> 0 \<le> y \<Longrightarrow> y \<le> 4 \<Longrightarrow>
   (if player = P1 then p2 b else p1 b) = XY_TO_POS x y \<Longrightarrow>
   Mirror_getMove b player max_depth = XY_TO_POS (4 - x) (4 - y) \<and>
   Mirror_getMove (b\<lparr>board := brd\<rparr>) player other_depth = Mirror_getMove b player max_depth"
proof -
  assume a: "0 \<le> x" "x \<le> 4" "0 \<le> y" "y \<le> 4"
    and pp: "(if player = P1 then p2 b else p1 b) = XY_TO_POS x y"
  have nn: "0 \<le> x * 7 + y" using a by simp
  have d: "(x * 7 + y) div 7 = x" using a by simp
  have m: "(x * 7 + y) mod 7 = y" using a by simp
  have "(x * 7 + y) sdiv 7 = (x * 7 + y) div 7"
    using nn by (rule sdiv7_nonneg)
  with d have sd: "(x * 7 + y) sdiv 7 = x" by simp
  have "(x * 7 + y) smod 7 = (x * 7 + y) mod 7"
    using nn by (rule smod7_nonneg)
  with m have sm: "(x * 7 + y) smod 7 = y" by simp
  have px: "POS_TO_X (XY_TO_POS x y) = x" by (simp add: POS_TO_X_def XY_TO_POS_def sd)
  have py: "POS_TO_Y (XY_TO_POS x y) = y" by (simp add: POS_TO_Y_def XY_TO_POS_def sm)
  have 1: "Mirror_getMove b player max_depth = XY_TO_POS (4 - x) (4 - y)"
    unfolding Mirror_getMove_def Let_def pp px py ..
  have 2: "Mirror_getMove (b\<lparr>board := brd\<rparr>) player other_depth
             = Mirror_getMove b player max_depth"
    by (simp add: Mirror_getMove_def)
  from 1 2 show ?thesis by simp
qed

text \<open>On \<open>board_stuck\<close> the reflected cell is the mover's own, occupied cell.\<close>

theorem Mirror_getMove_reflects_witness:
  "(0::int) \<le> 4 \<and> (4::int) \<le> 4 \<and>
   (if P1 = P1 then p2 board_stuck else p1 board_stuck) = XY_TO_POS 4 4 \<and>
   Mirror_getMove board_stuck P1 25 = XY_TO_POS 0 0 \<and>
   Mirror_getMove board_stuck P1 25 = 8 \<and>
   isLegal board_stuck 0 0 = Some False"
  using Mirror_getMove_reflects[of 4 4 P1 board_stuck 25 "[]" 0]
  by (simp add: board_stuck_def XY_TO_POS_def isLegal_def rd_def EMPTY_def)

section \<open>The trail left by play\<close>

lemma Board_new_eq:
  "Board_new =
     \<lparr> board = [5, 5, 5, 5, 5, 5, 5,
                 5, 0, 0, 0, 0, 0, 5,
                 5, 0, 0, 0, 0, 0, 5,
                 5, 0, 0, 0, 0, 0, 5,
                 5, 0, 0, 0, 0, 0, 5,
                 5, 0, 0, 0, 0, 0, 5,
                 5, 5, 5, 5, 5, 5, 5], p1 = 0, p2 = 0 \<rparr>"
  by code_simp

text \<open>
  C3 as stated fails: \<open>play\<close> never clears the cell a token leaves. After player one
  places at (0, 0), player two at (0, 1) and player one moves to (1, 0), the cells 8 and
  15 both hold the mark of player one, and only 15 is its stored position.
\<close>

theorem play_trail_counterexample:
  "legal_plays Board_new [(0, 0, P1), (0, 1, P2), (1, 0, P1)] \<and>
   plays Board_new [(0, 0, P1), (0, 1, P2), (1, 0, P1)] = Some board_trail \<and>
   rd (board board_trail) 8 = Some P1 \<and> rd (board board_trail) 15 = Some P1 \<and>
   p1 board_trail = 15"
  by code_simp

lemma play_step:
  assumes "isLegal b x y = Some True" "m = P1 \<or> m = P2" "player = P1 \<or> player = P2"
  shows "\<exists>b'. play b x y player = Some b' \<and> length (board b') = length (board b) \<and>
           marks b' m = (if player = m then insert (XY_TO_POS x y) (marks b m) else marks b m) \<and>
           stored b' m = (if player = m then XY_TO_POS x y else stored b m)"
proof -
  let ?pos = "x * 7 + y + 8"
  from assms(1) have r: "0 \<le> ?pos" "?pos < int (length (board b))"
    and e: "board b ! nat ?pos = EMPTY"
    by (auto simp: isLegal_def rd_def split: if_splits)
  have ne: "m \<noteq> EMPTY" "player \<noteq> EMPTY"
    using assms(2,3) by (auto simp: P1_def P2_def EMPTY_def)
  let ?b' = "if player = P1 then b\<lparr>board := (board b)[nat ?pos := player], p1 := ?pos\<rparr>
             else b\<lparr>board := (board b)[nat ?pos := player], p2 := ?pos\<rparr>"
  have p: "play b x y player = Some ?b'" using r by (simp add: play_def wr_def Let_def)
  have bb: "board ?b' = (board b)[nat ?pos := player]" by simp
  have mk: "marks ?b' m = (if player = m then insert ?pos (marks b m) else marks b m)"
    unfolding marks_def bb using r e ne
    by (auto simp: nth_list_update nat_eq_iff)
  have st: "stored ?b' m = (if player = m then ?pos else stored b m)"
    using assms(2,3) by (auto simp: stored_def P1_def P2_def)
  show ?thesis using p mk st by (simp add: XY_TO_POS_def)
qed

lemma plays_trail:
  "legal_plays b ms \<Longrightarrow> m = P1 \<or> m = P2 \<Longrightarrow>
   \<exists>b'. plays b ms = Some b' \<and> marks b' m = marks b m \<union> set (trail m ms) \<and>
        stored b' m = (if trail m ms = [] then stored b m else last (trail m ms))"
proof (induction ms arbitrary: b)
  case Nil
  then show ?case by (simp add: trail_def)
next
  case (Cons a ms)
  obtain x y player where a: "a = (x, y, player)" by (cases a) auto
  from Cons.prems a have l: "isLegal b x y = Some True"
    and pl: "player = P1 \<or> player = P2" by auto
  from play_step[OF l Cons.prems(2) pl] obtain b1 where
    b1: "play b x y player = Some b1"
    and m1: "marks b1 m = (if player = m then insert (XY_TO_POS x y) (marks b m) else marks b m)"
    and s1: "stored b1 m = (if player = m then XY_TO_POS x y else stored b m)" by blast
  from Cons.prems a b1 have "legal_plays b1 ms" by simp
  from Cons.IH[OF this Cons.prems(2)] obtain b' where
    b': "plays b1 ms = Some b'" and m': "marks b' m = marks b1 m \<union> set (trail m ms)"
    and s': "stored b' m = (if trail m ms = [] then stored b1 m else last (trail m ms))"
    by blast
  have t: "trail m (a # ms) = (if player = m then XY_TO_POS x y # trail m ms else trail m ms)"
    by (simp add: trail_def a)
  show ?case using b1 b' m' s' m1 s1 t a by auto
qed

text \<open>
  C3 as amended: after a legal sequence of \<open>play\<close> calls on a fresh board, the cells
  that hold a player's mark are exactly the cells that player has played on, the stored
  position is the last of them (and 0 for a player who has not played), and the cell at
  the stored position of a player who has played holds that player's mark.
\<close>

theorem play_trail:
  "legal_plays Board_new ms \<Longrightarrow> m = P1 \<or> m = P2 \<Longrightarrow>
   \<exists>b. plays Board_new ms = Some b \<and>
       marks b m = set (trail m ms) \<and>
       stored b m = (if trail m ms = [] then 0 else last (trail m ms)) \<and>
       (trail m ms \<noteq> [] \<longrightarrow> rd (board b) (stored b m) = Some m)"
proof -
  assume l: "legal_plays Board_new ms" and m: "m = P1 \<or> m = P2"
  have m0: "marks Board_new m = {}"
  proof -
    have "m \<notin> set (board Board_new)"
      using m unfolding Board_new_eq by (auto simp: P1_def P2_def)
    then show ?thesis by (auto simp: marks_def)
  qed
  have s0: "stored Board_new m = 0" by (simp add: stored_def Board_new_eq)
  from plays_trail[OF l m] obtain b where b: "plays Board_new ms = Some b"
    and mk: "marks b m = set (trail m ms)"
    and st: "stored b m = (if trail m ms = [] then 0 else last (trail m ms))"
    using m0 s0 by auto
  have "trail m ms \<noteq> [] \<longrightarrow> rd (board b) (stored b m) = Some m"
  proof
    assume ne: "trail m ms \<noteq> []"
    then have "stored b m \<in> marks b m" using mk st by simp
    then show "rd (board b) (stored b m) = Some m" by (auto simp: marks_def rd_def)
  qed
  with b mk st show ?thesis by blast
qed

theorem play_trail_witness:
  "legal_plays Board_new [(0, 0, P1), (0, 1, P2), (1, 0, P1)] \<and> (P1 = P1 \<or> P1 = P2) \<and>
   (\<exists>b. plays Board_new [(0, 0, P1), (0, 1, P2), (1, 0, P1)] = Some b \<and>
        marks b P1 = {8, 15} \<and> stored b P1 = 15 \<and> rd (board b) (stored b P1) = Some P1)"
proof -
  have l: "legal_plays Board_new [(0, 0, P1), (0, 1, P2), (1, 0, P1)]" by code_simp
  have t: "trail P1 [(0, 0, P1), (0, 1, P2), (1, 0, P1)] = [8, 15]"
    by (simp add: trail_def XY_TO_POS_def P1_def P2_def)
  from l play_trail[OF l, of P1] t show ?thesis by auto
qed

section \<open>The flood fill terminates and stays inside the board\<close>

lemma finite_marked: "finite (marked steps)"
proof -
  have "marked steps \<subseteq> {0 ..< int (length steps)}" by (auto simp: marked_def)
  then show ?thesis by (rule finite_subset) simp
qed

lemma marked_update:
  assumes "0 \<le> p" "p < int (length steps)" "steps ! nat p = - 1" "step \<noteq> - 1"
  shows "marked (steps[nat p := step]) = insert p (marked steps)"
  using assms by (auto simp: marked_def nth_list_update nat_eq_iff)

lemma bfs_inv_mark:
  assumes inv: "bfs_inv steps q tc" and p: "inner p" and u: "steps ! nat p = - 1"
    and s: "1 \<le> step" "step \<le> tc"
  shows "bfs_inv (steps[nat p := step]) (q @ [p]) tc"
proof -
  from inv have len: "length steps = 49" and dq: "distinct q" and qm: "set q \<subseteq> marked steps"
    and mi: "marked steps \<subseteq> {p. inner p}"
    and cd: "int (card (marked steps)) = tc + int (length q)"
    and bd: "\<forall>j < length q. 0 \<le> steps ! nat (q ! j) \<and> steps ! nat (q ! j) \<le> tc + int j"
    by (auto simp: bfs_inv_def)
  from p have r: "0 \<le> p" "p < int (length steps)" using inner_bounds[of p] len by auto
  have pm: "p \<notin> marked steps" using u by (simp add: marked_def)
  then have pq: "p \<notin> set q" using qm by auto
  have mu: "marked (steps[nat p := step]) = insert p (marked steps)"
    using marked_update[OF r u] s by simp
  have c': "int (card (marked (steps[nat p := step]))) = tc + int (length (q @ [p]))"
    unfolding mu using pm finite_marked[of steps] cd by simp
  have b': "\<forall>j < length (q @ [p]). 0 \<le> steps[nat p := step] ! nat ((q @ [p]) ! j)
      \<and> steps[nat p := step] ! nat ((q @ [p]) ! j) \<le> tc + int j"
  proof (intro allI impI)
    fix j assume j: "j < length (q @ [p])"
    show "0 \<le> steps[nat p := step] ! nat ((q @ [p]) ! j)
      \<and> steps[nat p := step] ! nat ((q @ [p]) ! j) \<le> tc + int j"
    proof (cases "j < length q")
      case True
      then have "q ! j \<in> set q" by simp
      then have ne: "q ! j \<noteq> p" and "0 \<le> q ! j" using pq qm by (auto simp: marked_def)
      then have "nat (q ! j) \<noteq> nat p" using r by (simp add: nat_eq_iff)
      then show ?thesis using True bd by (simp add: nth_append)
    next
      case False
      then have "j = length q" using j by simp
      then show ?thesis using s r by (simp add: nth_append)
    qed
  qed
  show ?thesis unfolding bfs_inv_def mu
    using len dq pq qm mi p c' b' mu by auto
qed

lemma dijkstra_ray_inv:
  assumes wf: "wf_grid brd" and mv: "move \<in> set MOVES" and s: "1 \<le> step" "step \<le> tc"
  shows "bfs_inv steps q tc \<Longrightarrow> inner p \<Longrightarrow>
     \<exists>steps' q'. dijkstra_ray brd move step p steps q = Some (steps', q') \<and> bfs_inv steps' q' tc
        \<and> (\<forall>x \<in> marked steps. steps' ! nat x = steps ! nat x)"
proof (induction "nat (if 0 < move then 49 - p else p)" arbitrary: p steps q rule: less_induct)
  case less
  let ?p = "p + move"
  from wf have lb: "length brd = 49" by (simp add: wf_grid_def)
  from less.prems have ls: "length steps = 49" by (simp add: bfs_inv_def)
  have r: "0 \<le> ?p" "?p < 49" using inner_step_range[OF less.prems(2) mv] by auto
  have rb: "rd brd ?p = Some (brd ! nat ?p)" using r lb by (simp add: rd_def)
  have rs: "rd steps ?p = Some (steps ! nat ?p)" using r ls by (simp add: rd_def)
  show ?case
  proof (cases "brd ! nat ?p \<noteq> EMPTY \<or> steps ! nat ?p \<noteq> - 1")
    case True
    then have "dijkstra_ray brd move step p steps q = Some (steps, q)"
      by (subst dijkstra_ray.simps) (auto simp: rb rs Let_def)
    then show ?thesis using less.prems by simp
  next
    case False
    then have e: "brd ! nat ?p = EMPTY" and u: "steps ! nat ?p = - 1" by auto
    have ip: "inner ?p" using wf_grid_empty_inner[OF wf r e] .
    have inv': "bfs_inv (steps[nat ?p := step]) (q @ [?p]) tc"
      using bfs_inv_mark[OF less.prems(1) ip u s] .
    have m0: "move \<noteq> 0" using mv by (auto simp: MOVES_def)
    have dec: "nat (if 0 < move then 49 - ?p else ?p) < nat (if 0 < move then 49 - p else p)"
      using r m0 by auto
    from less.hyps[OF dec inv' ip] obtain steps' q' where
      res: "dijkstra_ray brd move step ?p (steps[nat ?p := step]) (q @ [?p]) = Some (steps', q')"
      and i2: "bfs_inv steps' q' tc"
      and fr: "\<forall>x \<in> marked (steps[nat ?p := step]). steps' ! nat x = steps[nat ?p := step] ! nat x"
      by blast
    have unf: "dijkstra_ray brd move step p steps q = Some (steps', q')"
      by (subst dijkstra_ray.simps) (simp add: rb rs Let_def e u res)
    have mu: "marked (steps[nat ?p := step]) = insert ?p (marked steps)"
      using marked_update[of ?p steps step] r ls u s by simp
    have "\<forall>x \<in> marked steps. steps' ! nat x = steps ! nat x"
    proof
      fix x assume x: "x \<in> marked steps"
      then have "x \<noteq> ?p" "0 \<le> x" using u by (auto simp: marked_def)
      then have "nat x \<noteq> nat ?p" using r by (simp add: nat_eq_iff)
      moreover have "steps' ! nat x = steps[nat ?p := step] ! nat x" using fr x mu by simp
      ultimately show "steps' ! nat x = steps ! nat x" by simp
    qed
    with unf i2 show ?thesis by blast
  qed
qed

lemma dijkstra_dirs_inv:
  assumes wf: "wf_grid brd" and s: "1 \<le> step" "step \<le> tc" and ip: "inner pos"
  shows "set ms \<subseteq> set MOVES \<Longrightarrow> bfs_inv steps q tc \<Longrightarrow>
     \<exists>steps' q'. dijkstra_dirs brd pos step ms steps q = Some (steps', q') \<and> bfs_inv steps' q' tc
        \<and> (\<forall>x \<in> marked steps. steps' ! nat x = steps ! nat x)"
proof (induction ms arbitrary: steps q)
  case Nil
  then show ?case by simp
next
  case (Cons m ms)
  then have mv: "m \<in> set MOVES" and sub: "set ms \<subseteq> set MOVES" by auto
  from dijkstra_ray_inv[OF wf mv s Cons.prems(2) ip] obtain s1 q1 where
    r1: "dijkstra_ray brd m step pos steps q = Some (s1, q1)" and i1: "bfs_inv s1 q1 tc"
    and f1: "\<forall>x \<in> marked steps. s1 ! nat x = steps ! nat x" by blast
  from Cons.IH[OF sub i1] obtain s2 q2 where
    r2: "dijkstra_dirs brd pos step ms s1 q1 = Some (s2, q2)" and i2: "bfs_inv s2 q2 tc"
    and f2: "\<forall>x \<in> marked s1. s2 ! nat x = s1 ! nat x" by blast
  have sub: "marked steps \<subseteq> marked s1"
    using f1 i1 Cons.prems(2) by (auto simp: marked_def bfs_inv_def)
  have "\<forall>x \<in> marked steps. s2 ! nat x = steps ! nat x" using f1 f2 sub by auto
  with r1 r2 i2 show ?case by simp
qed


lemma bfs_inv_card: "bfs_inv steps q tc \<Longrightarrow> tc + int (length q) \<le> 25"
proof -
  assume inv: "bfs_inv steps q tc"
  then have "card (marked steps) \<le> card {p. inner p}"
    by (intro card_mono finite_inner) (simp add: bfs_inv_def)
  with card_inner have "card (marked steps) \<le> 25" by simp
  with inv show ?thesis by (simp add: bfs_inv_def)
qed

lemma bfs_inv_pop:
  assumes "bfs_inv steps (pos # q) tc"
  shows "bfs_inv steps q (tc + 1) \<and> inner pos \<and> 0 \<le> steps ! nat pos \<and> steps ! nat pos \<le> tc
     \<and> rd steps pos = Some (steps ! nat pos)"
proof -
  from assms have len: "length steps = 49" and pm: "pos \<in> marked steps"
    and mi: "marked steps \<subseteq> {p. inner p}"
    and bd: "\<forall>j < length (pos # q). 0 \<le> steps ! nat ((pos # q) ! j)
        \<and> steps ! nat ((pos # q) ! j) \<le> tc + int j"
    by (auto simp: bfs_inv_def)
  from bd have b0: "0 \<le> steps ! nat pos \<and> steps ! nat pos \<le> tc" by force
  have bq: "\<forall>j < length q. 0 \<le> steps ! nat (q ! j) \<and> steps ! nat (q ! j) \<le> tc + 1 + int j"
  proof (intro allI impI)
    fix j assume "j < length q"
    then have "Suc j < length (pos # q)" by simp
    with bd have "0 \<le> steps ! nat ((pos # q) ! Suc j)
        \<and> steps ! nat ((pos # q) ! Suc j) \<le> tc + int (Suc j)" by blast
    then show "0 \<le> steps ! nat (q ! j) \<and> steps ! nat (q ! j) \<le> tc + 1 + int j" by simp
  qed
  have "rd steps pos = Some (steps ! nat pos)" using pm by (simp add: marked_def rd_def)
  moreover have "inner pos" using pm mi by auto
  moreover have "bfs_inv steps q (tc + 1)" using assms bq by (simp add: bfs_inv_def)
  ultimately show ?thesis using b0 by simp
qed

lemma dijkstra_loop_inv:
  assumes wf: "wf_grid brd"
  shows "bfs_inv steps q tc \<Longrightarrow> 0 \<le> ts \<Longrightarrow> 2 * ts \<le> tc * (tc - 1) \<Longrightarrow>
     \<exists>tc' ts' steps'. dijkstra_loop brd q steps tc ts = Some (tc', ts', steps') \<and>
        tc \<le> tc' \<and> (q \<noteq> [] \<longrightarrow> tc + 1 \<le> tc') \<and> tc' \<le> 25 \<and>
        0 \<le> ts' \<and> 2 * ts' \<le> tc' * (tc' - 1) \<and>
        (\<forall>x \<in> marked steps. steps' ! nat x = steps ! nat x)"
proof (induction "nat (25 - tc)" arbitrary: steps q tc ts rule: less_induct)
  case less
  show ?case
  proof (cases q)
    case Nil
    have "dijkstra_loop brd [] steps tc ts = Some (tc, ts, steps)"
      by (subst dijkstra_loop.simps) simp
    moreover have "tc \<le> 25" using bfs_inv_card[OF less.prems(1)] by simp
    ultimately show ?thesis using Nil less.prems by simp
  next
    case (Cons pos q')
    let ?s = "steps ! nat pos"
    from bfs_inv_pop[OF less.prems(1)[unfolded Cons]]
    have i1: "bfs_inv steps q' (tc + 1)" and ip: "inner pos" and s0: "0 \<le> ?s" and s1: "?s \<le> tc"
      and rs: "rd steps pos = Some ?s" by auto
    have st: "1 \<le> ?s + 1" "?s + 1 \<le> tc + 1" using s0 s1 by auto
    from dijkstra_dirs_inv[OF wf st ip subset_refl i1] obtain steps1 q1 where
      d: "dijkstra_dirs brd pos (?s + 1) MOVES steps q' = Some (steps1, q1)"
      and i2: "bfs_inv steps1 q1 (tc + 1)"
      and f1: "\<forall>x \<in> marked steps. steps1 ! nat x = steps ! nat x" by blast
    have tcb: "tc + 1 \<le> 25" using bfs_inv_card[OF i1] by simp
    then have dec: "nat (25 - (tc + 1)) < nat (25 - tc)" by simp
    have ts0: "0 \<le> ts + ?s" using less.prems(2) s0 by simp
    have "2 * (ts + ?s) \<le> tc * (tc - 1) + 2 * tc" using less.prems(3) s1 by simp
    also have "\<dots> = (tc + 1) * (tc + 1 - 1)" by (simp add: algebra_simps)
    finally have ts1: "2 * (ts + ?s) \<le> (tc + 1) * (tc + 1 - 1)" .
    from less.hyps[OF dec i2 ts0 ts1] obtain tc' ts' steps' where
      l: "dijkstra_loop brd q1 steps1 (tc + 1) (ts + ?s) = Some (tc', ts', steps')"
      and b: "tc + 1 \<le> tc'" "tc' \<le> 25" "0 \<le> ts'" "2 * ts' \<le> tc' * (tc' - 1)"
      and f2: "\<forall>x \<in> marked steps1. steps' ! nat x = steps1 ! nat x" by blast
    have unf: "dijkstra_loop brd q steps tc ts = Some (tc', ts', steps')"
      unfolding Cons by (subst dijkstra_loop.simps) (simp add: rs d l)
    have sub: "marked steps \<subseteq> marked steps1"
      using f1 i2 less.prems(1) by (auto simp: marked_def bfs_inv_def)
    have "\<forall>x \<in> marked steps. steps' ! nat x = steps ! nat x" using f1 f2 sub by auto
    with unf b show ?thesis by auto
  qed
qed

lemma bfs_inv_init:
  assumes "inner pos"
  shows "bfs_inv ((replicate 49 (- 1))[nat pos := 0]) [pos] 0"
proof -
  let ?st = "(replicate 49 (- 1 :: int))[nat pos := 0]"
  from assms have r: "0 \<le> pos" "pos < 49" using inner_bounds[of pos] by auto
  have m: "marked ?st = {pos}"
    using r by (auto simp: marked_def nth_list_update nat_eq_iff)
  show ?thesis unfolding bfs_inv_def m using assms r by simp
qed

lemma score_bounds:
  assumes "1 \<le> (tc::int)" "tc \<le> 25" "0 \<le> ts" "2 * ts \<le> tc * (tc - 1)"
  shows "16 \<le> tc * 16 - ts \<and> tc * 16 - ts \<le> 400"
proof -
  have "0 \<le> (tc - 1) * (32 - tc)" using assms by (intro mult_nonneg_nonneg) auto
  then have "tc * (tc - 1) \<le> 32 * tc - 32" by (simp add: algebra_simps)
  with assms show ?thesis by simp
qed

lemma dijkstra_run_total:
  assumes wf: "wf_grid (board b)" and ip: "inner (if player = P1 then p1 b else p2 b)"
  shows "\<exists>tc ts steps. dijkstra_run b player = Some (tc, ts, steps) \<and>
     1 \<le> tc \<and> tc \<le> 25 \<and> 0 \<le> ts \<and> 2 * ts \<le> tc * (tc - 1) \<and>
     steps ! nat (if player = P1 then p1 b else p2 b) = 0"
proof -
  let ?pos = "if player = P1 then p1 b else p2 b"
  let ?st = "(replicate 49 (- 1 :: int))[nat ?pos := 0]"
  from ip have r: "0 \<le> ?pos" "?pos < 49" using inner_bounds[of ?pos] by auto
  have w: "wr (replicate 49 (- 1)) ?pos 0 = Some ?st" using r by (simp add: wr_def)
  have pm: "?pos \<in> marked ?st" using r by (simp add: marked_def)
  from dijkstra_loop_inv[OF wf bfs_inv_init[OF ip], of 0] obtain tc ts steps where
    l: "dijkstra_loop (board b) [?pos] ?st 0 0 = Some (tc, ts, steps)"
    and bb: "0 + 1 \<le> tc" "tc \<le> 25" "0 \<le> ts" "2 * ts \<le> tc * (tc - 1)"
    and f: "\<forall>x \<in> marked ?st. steps ! nat x = ?st ! nat x" by auto
  have "steps ! nat ?pos = 0" using f pm r by simp
  moreover have "dijkstra_run b player = Some (tc, ts, steps)"
    unfolding dijkstra_run_def Let_def w using l by simp
  ultimately show ?thesis using bb by simp
qed

lemma dijkstra_total:
  assumes wf: "wf_grid (board b)" and ip: "inner (if player = P1 then p1 b else p2 b)"
  shows "\<exists>v. dijkstra b player = Some v \<and> 16 \<le> v \<and> v \<le> 400"
proof -
  from dijkstra_run_total[OF wf ip] obtain tc ts steps where
    r: "dijkstra_run b player = Some (tc, ts, steps)"
    and bb: "1 \<le> tc" "tc \<le> 25" "0 \<le> ts" "2 * ts \<le> tc * (tc - 1)" by blast
  from score_bounds[OF bb] r show ?thesis by (simp add: dijkstra_def SCORE_PER_CELL_def)
qed

lemma getScore_total:
  assumes wf: "wf_grid (board b)" and i1: "inner (p1 b)" and i2: "inner (p2 b)"
  shows "\<exists>v. getScore b player = Some v \<and> - 384 \<le> v \<and> v \<le> 384"
proof -
  have a: "inner (if player = P1 then p1 b else p2 b)" using i1 i2 by simp
  have c: "inner (if OPPONENT player = P1 then p1 b else p2 b)" using i1 i2 by simp
  from dijkstra_total[OF wf a] obtain v where v: "dijkstra b player = Some v" "16 \<le> v" "v \<le> 400"
    by blast
  from dijkstra_total[OF wf c] obtain w where
    w: "dijkstra b (OPPONENT player) = Some w" "16 \<le> w" "w \<le> 400" by blast
  show ?thesis using v w by (simp add: getScore_def)
qed


text \<open>
  C5: on a well-formed board both scores are defined and the score of player one is
  the negation of the score of player two.
\<close>

theorem getScore_zero_sum:
  "wf_board b \<Longrightarrow> \<exists>v. getScore b P1 = Some v \<and> getScore b P2 = Some (- v)"
proof -
  assume wf: "wf_board b"
  then have g: "wf_grid (board b)" and i1: "inner (if P1 = P1 then p1 b else p2 b)"
    and i2: "inner (if P2 = P1 then p1 b else p2 b)"
    by (auto simp: wf_board_def P1_def P2_def)
  from dijkstra_total[OF g i1] obtain v where v: "dijkstra b P1 = Some v" by blast
  from dijkstra_total[OF g i2] obtain w where w: "dijkstra b P2 = Some w" by blast
  have o: "OPPONENT P1 = P2" "OPPONENT P2 = P1" by (simp_all add: OPPONENT_def P1_def P2_def)
  show ?thesis using v w o by (simp add: getScore_def)
qed

lemma wf_board_mid: "wf_board board_mid"
  by code_simp

theorem getScore_zero_sum_witness:
  "wf_board board_mid \<and> getScore board_mid P1 = Some (- 3) \<and> getScore board_mid P2 = Some 3"
proof -
  have h: "wf_board board_mid" by (rule wf_board_mid)
  have v: "getScore board_mid P1 = Some (- 3)" by code_simp
  from h v getScore_zero_sum[OF h] show ?thesis by auto
qed

lemma hasLost_inner:
  "length (board b) = 49 \<Longrightarrow> inner pos \<Longrightarrow> \<exists>l. hasLost b pos = Some l"
  using inner_bounds[of pos] by (auto simp: hasLost_def rd_def)

text \<open>
  C9: with \<open>max_depth = 1\<close>, whenever \<open>Negamax::getMove\<close> returns, on any board,
  it returns 0 and leaves the board as it was; it does return on every well-formed
  board. When the acting player's token has no single-step move at the root it returns 0
  for every \<open>max_depth\<close>. In both cases \<open>negamax\<close> returns before it writes the
  out-parameter.
\<close>

theorem getMove_zero:
  "(getMove fuel' b player 1 = Some (move, b') \<longrightarrow> move = 0 \<and> b' = b) \<and>
   (wf_board b \<longrightarrow> getMove (Suc fuel) b player 1 = Some (0, b)) \<and>
   (hasLost b (if player = P1 then p1 b else p2 b) = Some True \<longrightarrow>
      getMove (Suc fuel) b player max_depth = Some (0, b))"
proof -
  have any: "move = 0 \<and> b' = b" if g: "getMove fuel' b player 1 = Some (move, b')"
  proof (cases fuel')
    case 0
    with g show ?thesis by (simp add: getMove_def Let_def)
  next
    case (Suc n)
    with g show ?thesis
      by (auto simp: getMove_def Let_def split: option.splits bool.splits if_splits)
  qed
  have lost: "getMove (Suc fuel) b player max_depth = Some (0, b)"
    if "hasLost b (if player = P1 then p1 b else p2 b) = Some True"
    using that by (simp add: getMove_def Let_def)
  have one: "getMove (Suc fuel) b player 1 = Some (0, b)" if wf: "wf_board b"
  proof -
    let ?ap = "if player = P1 then p1 b else p2 b"
    let ?pp = "if player = P1 then p2 b else p1 b"
    from wf have g: "wf_grid (board b)" and i1: "inner (p1 b)" and i2: "inner (p2 b)"
      and len: "length (board b) = 49"
      by (auto simp: wf_board_def wf_grid_def)
    have ia: "inner ?ap" using i1 i2 by simp
    from hasLost_inner[OF len ia] obtain l where l: "hasLost b ?ap = Some l" by blast
    have "0 \<le> ?ap" "?ap < 49" using inner_bounds[OF ia] by auto
    then have r: "rd (board b) ?ap = Some (board b ! nat ?ap)" using len by (simp add: rd_def)
    from getScore_total[OF g i1 i2] obtain v where
      v: "getScore b (board b ! nat ?ap) = Some v" by blast
    have "negamax (Suc fuel) 1 b ?ap ?pp 1 (- INF_VALUE) INF_VALUE (Some 0)
            = Some (if l then LOSS_VALUE + 1 else v, b, Some 0)"
      using l r v by (cases l) simp_all
    then show ?thesis by (simp add: getMove_def Let_def)
  qed
  from any lost one show ?thesis by blast
qed

theorem getMove_zero_witness:
  "wf_board board_open \<and> getMove (Suc 0) board_open P1 1 = Some (0, board_open) \<and>
   hasLost board_stuck (if P1 = P1 then p1 board_stuck else p2 board_stuck) = Some True \<and>
   getMove (Suc 0) board_stuck P1 25 = Some (0, board_stuck)"
proof -
  have h: "hasLost board_stuck (if P1 = P1 then p1 board_stuck else p2 board_stuck) = Some True"
    by (simp add: hasLost_def board_stuck_def rd_def)
  from h wf_board_open
    getMove_zero[where b=board_open and fuel=0 and player=P1]
    getMove_zero[where b=board_stuck and fuel=0 and player=P1 and max_depth=25]
  show ?thesis by simp
qed

lemma hasLost_blocked:
  "hasLost b pos = Some True \<Longrightarrow> d \<in> set MOVES \<Longrightarrow>
   \<exists>c. rd (board b) (pos + d) = Some c \<and> c \<noteq> EMPTY"
  by (auto simp: hasLost_def MOVES_def EMPTY_def split: if_splits option.splits)

lemma dijkstra_ray_blocked:
  "rd brd (p + move) = Some c \<Longrightarrow> c \<noteq> EMPTY \<Longrightarrow>
   dijkstra_ray brd move step p steps q = Some (steps, q)"
  by (subst dijkstra_ray.simps) (simp add: Let_def)

lemma dijkstra_dirs_blocked:
  "\<forall>d \<in> set ms. \<exists>c. rd brd (pos + d) = Some c \<and> c \<noteq> EMPTY \<Longrightarrow>
   dijkstra_dirs brd pos step ms steps q = Some (steps, q)"
  by (induction ms) (auto simp: dijkstra_ray_blocked)

lemma dijkstra_lost:
  assumes len: "length (board b) = 49" and l: "hasLost b (stored b player) = Some True"
  shows "dijkstra b player = Some 16"
proof -
  let ?pos = "stored b player"
  let ?st = "(replicate 49 (- 1 :: int))[nat ?pos := 0]"
  have m: "1 \<in> set MOVES" "- 1 \<in> set MOVES" by (simp_all add: MOVES_def)
  from hasLost_blocked[OF l m(1)] hasLost_blocked[OF l m(2)] len
  have r: "0 \<le> ?pos" "?pos < 49" by (auto simp: rd_def split: if_splits)
  have w: "wr (replicate 49 (- 1)) ?pos 0 = Some ?st" using r by (simp add: wr_def)
  have rs: "rd ?st ?pos = Some 0" using r by (simp add: rd_def)
  have d: "dijkstra_dirs (board b) ?pos 1 MOVES ?st [] = Some (?st, [])"
    using hasLost_blocked[OF l] by (intro dijkstra_dirs_blocked) blast
  have e: "dijkstra_loop (board b) [] ?st 1 0 = Some (1, 0, ?st)"
    by (subst dijkstra_loop.simps) simp
  have "dijkstra_loop (board b) [?pos] ?st 0 0 = Some (1, 0, ?st)"
    by (subst dijkstra_loop.simps) (simp add: rs d e)
  then have "dijkstra_run b player = Some (1, 0, ?st)"
    using w by (simp add: dijkstra_run_def stored_def Let_def)
  then show ?thesis by (simp add: dijkstra_def SCORE_PER_CELL_def)
qed

text \<open>
  C10: on a well-formed grid \<open>dijkstra\<close> dequeues the player's own cell, with
  distance 0, so its result is at least \<open>SCORE_PER_CELL\<close>; it is exactly
  \<open>SCORE_PER_CELL\<close> when the eight neighbours of the player are all blocked; and
  \<open>getScore\<close> is 0 when both players are blocked.
\<close>

theorem dijkstra_counts_start:
  "(wf_grid (board b) \<and> inner (stored b player) \<longrightarrow>
      (\<exists>total_cells total_steps steps.
          dijkstra_run b player = Some (total_cells, total_steps, steps) \<and>
          1 \<le> total_cells \<and> steps ! nat (stored b player) = 0 \<and>
          dijkstra b player = Some (total_cells * SCORE_PER_CELL - total_steps) \<and>
          SCORE_PER_CELL \<le> total_cells * SCORE_PER_CELL - total_steps)) \<and>
   (length (board b) = 49 \<and> hasLost b (stored b player) = Some True \<longrightarrow>
      dijkstra b player = Some SCORE_PER_CELL) \<and>
   (length (board b) = 49 \<and> hasLost b (p1 b) = Some True \<and> hasLost b (p2 b) = Some True \<longrightarrow>
      getScore b player = Some 0)"
proof (intro conjI impI)
  assume a: "wf_grid (board b) \<and> inner (stored b player)"
  then have g: "wf_grid (board b)" and i: "inner (if player = P1 then p1 b else p2 b)"
    by (simp_all add: stored_def)
  from dijkstra_run_total[OF g i] obtain tc ts steps where
    r: "dijkstra_run b player = Some (tc, ts, steps)"
    and bb: "1 \<le> tc" "tc \<le> 25" "0 \<le> ts" "2 * ts \<le> tc * (tc - 1)"
    and z: "steps ! nat (if player = P1 then p1 b else p2 b) = 0" by blast
  from score_bounds[OF bb] r bb z
  show "\<exists>total_cells total_steps steps.
          dijkstra_run b player = Some (total_cells, total_steps, steps) \<and>
          1 \<le> total_cells \<and> steps ! nat (stored b player) = 0 \<and>
          dijkstra b player = Some (total_cells * SCORE_PER_CELL - total_steps) \<and>
          SCORE_PER_CELL \<le> total_cells * SCORE_PER_CELL - total_steps"
    by (simp add: dijkstra_def SCORE_PER_CELL_def stored_def)
next
  assume "length (board b) = 49 \<and> hasLost b (stored b player) = Some True"
  then show "dijkstra b player = Some SCORE_PER_CELL"
    using dijkstra_lost[of b player] by (simp add: SCORE_PER_CELL_def)
next
  assume a: "length (board b) = 49 \<and> hasLost b (p1 b) = Some True \<and> hasLost b (p2 b) = Some True"
  then have "hasLost b (stored b player) = Some True"
    "hasLost b (stored b (OPPONENT player)) = Some True"
    by (simp_all add: stored_def)
  with a have "dijkstra b player = Some 16" "dijkstra b (OPPONENT player) = Some 16"
    using dijkstra_lost by blast+
  then show "getScore b player = Some 0" by (simp add: getScore_def)
qed

theorem dijkstra_counts_start_witness:
  "wf_grid (board board_stuck) \<and> inner (stored board_stuck P1) \<and>
   length (board board_stuck) = 49 \<and>
   hasLost board_stuck (p1 board_stuck) = Some True \<and>
   hasLost board_stuck (p2 board_stuck) = Some True \<and>
   dijkstra board_stuck P1 = Some 16 \<and> getScore board_stuck P1 = Some 0"
proof -
  have g: "wf_grid (board board_stuck)" using wf_board_stuck by (simp add: wf_board_def)
  have s: "stored board_stuck P1 = 8" "p1 board_stuck = 8" "p2 board_stuck = 40"
    by (simp_all add: stored_def board_stuck_def)
  have i: "inner 8" by (simp add: inner_def)
  have l: "length (board board_stuck) = 49" by (simp add: board_stuck_def)
  have h1: "hasLost board_stuck 8 = Some True" by (simp add: hasLost_def board_stuck_def rd_def)
  have h2: "hasLost board_stuck 40 = Some True" by (simp add: hasLost_def board_stuck_def rd_def)
  from g s i l h1 h2 dijkstra_counts_start[of board_stuck P1]
  show ?thesis by (simp add: SCORE_PER_CELL_def)
qed

text \<open>
  C2: on \<open>board_open\<close> the flood fill for player one records distance 3 for cell 40,
  which two ray moves reach: from 19 to 16 along the row, from 16 to 40 along the
  diagonal. The inner loop stops at the first cell that already has a distance, so the
  cells behind it on the same ray are not reached in that layer.
\<close>

theorem dijkstra_distance_not_minimal:
  "dijkstra_run board_open P1 = Some (24, 37, steps_open) \<and> rd steps_open 40 = Some 3 \<and>
   16 \<in> set (ray_moves (board board_open) (p1 board_open)) \<and>
   40 \<in> set (ray_moves (board board_open) 16) \<and>
   dijkstra board_open P1 = Some 347"
  by code_simp

section \<open>The pruned search against the exhaustive one\<close>

lemma ray_cells_Nil:
  "rd brd (p + move) \<noteq> Some EMPTY \<Longrightarrow> ray_cells brd p move = []"
  by (subst ray_cells.simps) simp

lemma ray_cells_Cons:
  "move \<noteq> 0 \<Longrightarrow> rd brd (p + move) = Some EMPTY \<Longrightarrow>
   ray_cells brd p move = (p + move) # ray_cells brd (p + move) move"
  by (subst ray_cells.simps) simp

lemma ray_cells_empty: "x \<in> set (ray_cells brd p move) \<Longrightarrow> rd brd x = Some EMPTY"
proof (induction brd p move rule: ray_cells.induct)
  case (1 brd pos move)
  show ?case
  proof (cases "move \<noteq> 0 \<and> rd brd (pos + move) = Some EMPTY")
    case True
    then have "ray_cells brd pos move = (pos + move) # ray_cells brd (pos + move) move"
      by (simp add: ray_cells_Cons)
    with 1 True show ?thesis by auto
  next
    case False
    then have "ray_cells brd pos move = []" by (subst ray_cells.simps) auto
    with 1 show ?thesis by simp
  qed
qed

lemma restore_cell:
  assumes "0 \<le> pos" "pos < int (length (board b))" "board b ! nat pos = 0"
  shows "b\<lparr>board := (board b)[nat pos := player]\<rparr>\<lparr>board := (board (b\<lparr>board := (board b)[nat pos := player]\<rparr>))[nat pos := 0]\<rparr> = b"
proof -
  have "(board b)[nat pos := 0] = board b"
    using assms by (metis list_update_id)
  then show ?thesis by simp
qed

lemma negamax_ray_refines:
  assumes wf: "wf_grid (board b)" and mv: "move \<in> set MOVES"
  shows "inner p \<Longrightarrow>
     (\<forall>pos \<in> set (ray_cells (board b) p move). \<forall>a c.
         rec (b\<lparr>board := (board b)[nat pos := player]\<rparr>) pos a c
           = Some (cv pos a c, b\<lparr>board := (board b)[nat pos := player]\<rparr>)) \<Longrightarrow>
     negamax_ray rec player beta move p b alpha best bm =
       Some (case ab_loop cv beta (ray_cells (board b) p move) alpha best bm of
               Inl (s, m) \<Rightarrow> Inl (s, b, m)
             | Inr (a, s, m) \<Rightarrow> Inr (b, a, s, m))"
proof (induction "nat (if 0 < move then 49 - p else p)" arbitrary: p alpha best bm rule: less_induct)
  case less
  let ?p = "p + move"
  let ?b1 = "b\<lparr>board := (board b)[nat ?p := player]\<rparr>"
  from wf have lb: "length (board b) = 49" by (simp add: wf_grid_def)
  have m0: "move \<noteq> 0" using mv by (auto simp: MOVES_def)
  have r: "0 \<le> ?p" "?p < 49" using inner_step_range[OF less.prems(1) mv] by auto
  have rb: "rd (board b) ?p = Some (board b ! nat ?p)" using r lb by (simp add: rd_def)
  show ?case
  proof (cases "board b ! nat ?p = EMPTY")
    case False
    then have "ray_cells (board b) p move = []" by (intro ray_cells_Nil) (simp add: rb)
    moreover have "negamax_ray rec player beta move p b alpha best bm
        = Some (Inr (b, alpha, best, bm))"
      using False by (subst negamax_ray.simps) (simp add: rb Let_def)
    ultimately show ?thesis by simp
  next
    case True
    then have rc: "ray_cells (board b) p move = ?p # ray_cells (board b) ?p move"
      using m0 rb by (intro ray_cells_Cons) simp_all
    have ip: "inner ?p" using wf_grid_empty_inner[OF wf r True] .
    have dec: "nat (if 0 < move then 49 - ?p else ?p) < nat (if 0 < move then 49 - p else p)"
      using r m0 by auto
    have rec1: "\<And>a c. rec ?b1 ?p a c = Some (cv ?p a c, ?b1)"
      using less.prems(2) rc by simp
    have rec2: "\<forall>pos \<in> set (ray_cells (board b) ?p move). \<forall>a c.
         rec (b\<lparr>board := (board b)[nat pos := player]\<rparr>) pos a c
           = Some (cv pos a c, b\<lparr>board := (board b)[nat pos := player]\<rparr>)"
      using less.prems(2) rc by simp
    have rst: "?b1\<lparr>board := (board ?b1)[nat ?p := 0]\<rparr> = b"
      using restore_cell[of ?p b player] r lb True by (simp add: EMPTY_def)
    note ih = less.hyps[OF dec ip rec2]
    show ?thesis
      apply (subst negamax_ray.simps)
      apply (simp only: Let_def rb option.case True if_False not_not refl rec1 prod.case rst rc ab_loop.simps)
      apply (simp add: ih)
      done
  qed
qed


lemma ab_loop_append:
  "ab_loop cv beta (xs @ ys) alpha best bm =
     (case ab_loop cv beta xs alpha best bm of
        Inl r \<Rightarrow> Inl r
      | Inr (a, s, m) \<Rightarrow> ab_loop cv beta ys a s m)"
  by (induction xs arbitrary: alpha best bm) (simp_all add: Let_def)

lemma negamax_dirs_refines:
  assumes wf: "wf_grid (board b)" and ip: "inner ap"
  shows "set ms \<subseteq> set MOVES \<Longrightarrow>
     (\<forall>pos \<in> set (concat (map (ray_cells (board b) ap) ms)). \<forall>a c.
         rec (b\<lparr>board := (board b)[nat pos := player]\<rparr>) pos a c
           = Some (cv pos a c, b\<lparr>board := (board b)[nat pos := player]\<rparr>)) \<Longrightarrow>
     negamax_dirs rec player beta ap ms b alpha best bm =
       Some (ab_value (ab_loop cv beta (concat (map (ray_cells (board b) ap) ms)) alpha best bm),
             b,
             ab_move (ab_loop cv beta (concat (map (ray_cells (board b) ap) ms)) alpha best bm))"
proof (induction ms arbitrary: alpha best bm)
  case Nil
  then show ?case by simp
next
  case (Cons m ms)
  then have mv: "m \<in> set MOVES" and sub: "set ms \<subseteq> set MOVES" by auto
  have rec1: "\<forall>pos \<in> set (ray_cells (board b) ap m). \<forall>a c.
         rec (b\<lparr>board := (board b)[nat pos := player]\<rparr>) pos a c
           = Some (cv pos a c, b\<lparr>board := (board b)[nat pos := player]\<rparr>)"
    using Cons.prems(2) by simp
  have rec2: "\<forall>pos \<in> set (concat (map (ray_cells (board b) ap) ms)). \<forall>a c.
         rec (b\<lparr>board := (board b)[nat pos := player]\<rparr>) pos a c
           = Some (cv pos a c, b\<lparr>board := (board b)[nat pos := player]\<rparr>)"
    using Cons.prems(2) by simp
  note ray = negamax_ray_refines[where b=b and move=m and p=ap and rec=rec and player=player
      and cv=cv and beta=beta and alpha=alpha and best=best and bm=bm, OF wf mv ip rec1]
  note ih = Cons.IH[OF sub rec2]
  show ?case
  proof (cases "ab_loop cv beta (ray_cells (board b) ap m) alpha best bm")
    case (Inl r)
    obtain s mm where r: "r = (s, mm)" by (cases r)
    show ?thesis using ray Inl r by (simp add: ab_loop_append)
  next
    case (Inr r)
    obtain a s mm where r: "r = (a, s, mm)" by (cases r)
    show ?thesis using ray Inr r ih by (simp add: ab_loop_append)
  qed
qed

lemma fold_max_ge: "e \<le> fold max xs (e::int)"
proof (induction xs arbitrary: e)
  case Nil
  show ?case by simp
next
  case (Cons x xs)
  have "e \<le> max x e" by simp
  also have "\<dots> \<le> fold max xs (max x e)" by (rule Cons.IH)
  finally show ?case by simp
qed

lemma ab_loop_fail_soft:
  assumes ch: "\<forall>c \<in> set cands. \<forall>a b. - INF_VALUE \<le> a \<and> a < b \<and> b \<le> INF_VALUE \<longrightarrow>
      fail_soft (cv c a b) (ce c) a b"
    and lo: "- INF_VALUE \<le> a_init" and hi: "beta \<le> INF_VALUE"
  shows "a_init \<le> alpha \<Longrightarrow> alpha < beta \<Longrightarrow> alpha = max a_init best \<Longrightarrow>
     (best \<le> a_init \<longrightarrow> e_acc \<le> best) \<Longrightarrow> (a_init < best \<longrightarrow> e_acc = best) \<Longrightarrow>
     fail_soft (ab_value (ab_loop cv beta cands alpha best bm))
       (fold max (map (\<lambda>c. - ce c) cands) e_acc) a_init beta"
  using ch
proof (induction cands arbitrary: alpha best bm e_acc)
  case Nil
  then show ?case by (auto simp: fail_soft_def)
next
  case (Cons c cs)
  let ?s = "- cv c (- beta) (- alpha)"
  let ?se = "- ce c"
  let ?bm' = "if ?s > best then (case bm of None \<Rightarrow> None | Some m \<Rightarrow> Some c) else bm"
  let ?best' = "if ?s > best then ?s else best"
  let ?alpha' = "if alpha \<ge> ?s then alpha else ?s"
  from Cons.prems(1,2) lo hi
  have w: "- INF_VALUE \<le> - beta \<and> - beta < - alpha \<and> - alpha \<le> INF_VALUE" by simp
  from Cons.prems(6) w have fs: "fail_soft (cv c (- beta) (- alpha)) (ce c) (- beta) (- alpha)"
    by simp
  then have f1: "beta \<le> ?s \<longrightarrow> ?s \<le> ?se" and f2: "?s \<le> alpha \<longrightarrow> ?se \<le> ?s"
    and f3: "alpha < ?s \<and> ?s < beta \<longrightarrow> ?se = ?s"
    by (auto simp: fail_soft_def)
  show ?case
  proof (cases "?alpha' \<ge> beta")
    case True
    then have sb: "beta \<le> ?s" using Cons.prems(2) by (auto split: if_splits)
    then have bs: "?best' = ?s" using Cons.prems(2,3) by auto
    have "?se \<le> max ?se e_acc" by simp
    also have "\<dots> \<le> fold max (map (\<lambda>c. - ce c) cs) (max ?se e_acc)" by (rule fold_max_ge)
    finally have "?s \<le> fold max (map (\<lambda>c. - ce c) (c # cs)) e_acc" using f1 sb by simp
    moreover have "ab_value (ab_loop cv beta (c # cs) alpha best bm) = ?s"
      using True bs by (simp add: Let_def)
    ultimately show ?thesis using sb Cons.prems(1,2) by (simp add: fail_soft_def)
  next
    case False
    then have lt: "?alpha' < beta" by simp
    have a0: "a_init \<le> ?alpha'" using Cons.prems(1) by simp
    have am: "?alpha' = max a_init ?best'" using Cons.prems(3) by (auto simp: max_def)
    have i1: "?best' \<le> a_init \<longrightarrow> max ?se e_acc \<le> ?best'"
      using Cons.prems(1,3,4,5) f2 by (auto simp: max_def split: if_splits)
    have i2: "a_init < ?best' \<longrightarrow> max ?se e_acc = ?best'"
      using Cons.prems(1,3,4,5) f2 f3 lt by (auto simp: max_def split: if_splits)
    have ch': "\<forall>c \<in> set cs. \<forall>a b. - INF_VALUE \<le> a \<and> a < b \<and> b \<le> INF_VALUE \<longrightarrow>
        fail_soft (cv c a b) (ce c) a b"
      using Cons.prems(6) by simp
    note ih = Cons.IH[OF a0 lt am i1 i2 ch', of ?bm']
    have "ab_loop cv beta (c # cs) alpha best bm = ab_loop cv beta cs ?alpha' ?best' ?bm'"
      using False by (simp add: Let_def)
    then show ?thesis using ih by simp
  qed
qed

lemma ab_loop_bounds:
  assumes ch: "\<forall>c \<in> set cands. \<forall>a b. - 1000 \<le> cv c a b \<and> cv c a b \<le> 1000"
  shows "best \<le> 1000 \<Longrightarrow>
     ab_value (ab_loop cv beta cands alpha best bm) \<le> 1000 \<and>
     (cands \<noteq> [] \<or> - 1000 \<le> best \<longrightarrow> - 1000 \<le> ab_value (ab_loop cv beta cands alpha best bm)) \<and>
     (bm = None \<longleftrightarrow> ab_move (ab_loop cv beta cands alpha best bm) = None)"
  using ch
proof (induction cands arbitrary: alpha best bm)
  case Nil
  then show ?case by simp
next
  case (Cons c cs)
  let ?s = "- cv c (- beta) (- alpha)"
  let ?bm' = "if ?s > best then (case bm of None \<Rightarrow> None | Some m \<Rightarrow> Some c) else bm"
  let ?best' = "if ?s > best then ?s else best"
  let ?alpha' = "if alpha \<ge> ?s then alpha else ?s"
  from Cons.prems(2) have sb: "- 1000 \<le> ?s" "?s \<le> 1000"
    by (simp_all add: minus_le_iff le_minus_iff)
  have b1: "?best' \<le> 1000" "- 1000 \<le> ?best'" using sb Cons.prems(1) by auto
  have bmn: "bm = None \<longleftrightarrow> ?bm' = None" by (auto split: option.splits)
  have ch': "\<forall>c \<in> set cs. \<forall>a b. - 1000 \<le> cv c a b \<and> cv c a b \<le> 1000"
    using Cons.prems(2) by simp
  show ?case
  proof (cases "?alpha' \<ge> beta")
    case True
    then have "ab_loop cv beta (c # cs) alpha best bm = Inl (?best', ?bm')"
      by (simp add: Let_def)
    then show ?thesis using b1 bmn by simp
  next
    case False
    then have "ab_loop cv beta (c # cs) alpha best bm = ab_loop cv beta cs ?alpha' ?best' ?bm'"
      by (simp add: Let_def)
    then show ?thesis using Cons.IH[OF b1(1) ch', of ?alpha' ?bm'] b1 bmn by simp
  qed
qed

lemma fold_max_bounds:
  "\<forall>x \<in> set xs. - 1000 \<le> x \<and> x \<le> (1000::int) \<Longrightarrow> e \<le> 1000 \<Longrightarrow>
   fold max xs e \<le> 1000 \<and> (xs \<noteq> [] \<or> - 1000 \<le> e \<longrightarrow> - 1000 \<le> fold max xs e)"
proof (induction xs arbitrary: e)
  case Nil
  then show ?case by simp
next
  case (Cons x xs)
  then have "max x e \<le> 1000" "- 1000 \<le> max x e" by auto
  with Cons.IH[of "max x e"] Cons.prems show ?case by simp
qed


lemma some_empty_True:
  "some_empty brd i ds = Some True \<Longrightarrow> \<exists>d \<in> set ds. rd brd (i + d) = Some 0"
  by (induction ds) (auto split: option.splits if_splits)

lemma hasLost_False_moves:
  assumes "hasLost b ap = Some False" "ap \<noteq> 0"
  shows "ray_moves (board b) ap \<noteq> []"
proof -
  from assms have "some_empty (board b) ap MOVES = Some True"
    by (auto simp: hasLost_def MOVES_def split: option.splits if_splits)
  from some_empty_True[OF this] obtain d where d: "d \<in> set MOVES"
    and r: "rd (board b) (ap + d) = Some EMPTY" by (auto simp: EMPTY_def)
  have "d \<noteq> 0" using d by (auto simp: MOVES_def)
  then have "ray_cells (board b) ap d \<noteq> []" using r by (simp add: ray_cells_Cons)
  with d show ?thesis by (auto simp: ray_moves_def)
qed

lemma wf_grid_update:
  assumes "wf_grid brd" "inner pos"
  shows "wf_grid (brd[nat pos := v])"
proof -
  have len: "length brd = 49" and b: "\<forall>i \<in> set [0 ..< 49]. inner (int i) \<or> brd ! i \<noteq> EMPTY"
    using assms(1) by (auto simp: wf_grid_def)
  have "\<forall>i \<in> set [0 ..< 49]. inner (int i) \<or> brd[nat pos := v] ! i \<noteq> EMPTY"
  proof
    fix i assume i: "i \<in> set [0 ..< 49]"
    show "inner (int i) \<or> brd[nat pos := v] ! i \<noteq> EMPTY"
    proof (cases "i = nat pos")
      case True
      then have "int i = pos" using inner_bounds[OF assms(2)] by simp
      then show ?thesis using assms(2) by simp
    next
      case False
      then show ?thesis using b i by simp
    qed
  qed
  then show ?thesis using len by (simp add: wf_grid_def)
qed

lemma count_list_update:
  "i < length xs \<Longrightarrow> xs ! i = x \<Longrightarrow> v \<noteq> x \<Longrightarrow> Suc (count_list (xs[i := v]) x) = count_list xs x"
  by (induction xs arbitrary: i) (auto split: nat.splits)

lemma empties_update:
  assumes "rd brd pos = Some EMPTY" "v \<noteq> EMPTY"
  shows "Suc (empties (brd[nat pos := v])) = empties brd"
proof -
  from assms(1) have "nat pos < length brd" "brd ! nat pos = EMPTY"
    by (auto simp: rd_def split: if_splits)
  then show ?thesis unfolding empties_def using assms(2) by (intro count_list_update) auto
qed

lemma those_map_Some:
  "\<forall>x \<in> set xs. f x = Some (g x) \<Longrightarrow> those (map f xs) = Some (map g xs)"
  by (induction xs) simp_all

lemma child_node_ok:
  assumes ok: "node_ok b ap pp" and c: "rd (board b) pos = Some EMPTY"
    and pl: "player = board b ! nat ap"
  shows "node_ok (b\<lparr>board := (board b)[nat pos := player]\<rparr>) pp pos"
proof -
  from ok have wf: "wf_grid (board b)" and len: "length (board b) = 49"
    by (auto simp: node_ok_def wf_grid_def)
  from c have r: "0 \<le> pos" "pos < 49" and e: "board b ! nat pos = EMPTY"
    using len by (auto simp: rd_def split: if_splits)
  have ip: "inner pos" using wf_grid_empty_inner[OF wf r e] .
  have pne: "player \<noteq> EMPTY" using ok pl by (simp add: node_ok_def)
  have ipp: "inner pp" and ppne: "board b ! nat pp \<noteq> EMPTY" using ok by (auto simp: node_ok_def)
  have "pp \<noteq> pos" using e ppne by auto
  then have "nat pp \<noteq> nat pos" using r inner_bounds[OF ipp] by (simp add: nat_eq_iff)
  then have "(board b)[nat pos := player] ! nat pp \<noteq> EMPTY" using ppne by simp
  moreover have "(board b)[nat pos := player] ! nat pos \<noteq> EMPTY" using r len pne by simp
  ultimately show ?thesis
    using ok ip wf_grid_update[OF wf ip, of player] by (simp add: node_ok_def)
qed

lemma negamax_node:
  "node_ok b ap pp \<Longrightarrow> empties (board b) < fuel \<Longrightarrow> 0 \<le> depth \<Longrightarrow>
   depth + int (empties (board b)) \<le> 2000 \<Longrightarrow>
   \<exists>v e bm'. negamax fuel md b ap pp depth alpha beta bm = Some (v, b, bm') \<and>
      (bm = None \<longleftrightarrow> bm' = None) \<and> - 1000 \<le> v \<and> v \<le> 1000 \<and>
      exhaustive fuel md b ap pp depth = Some e \<and> - 1000 \<le> e \<and> e \<le> 1000 \<and>
      (- INF_VALUE \<le> alpha \<and> alpha < beta \<and> beta \<le> INF_VALUE \<longrightarrow> fail_soft v e alpha beta)"
proof (induction fuel arbitrary: b ap pp depth alpha beta bm)
  case 0
  then show ?case by simp
next
  case (Suc n)
  note ok = Suc.prems(1)
  from ok have wf: "wf_grid (board b)" and len: "length (board b) = 49"
    and i1: "inner (p1 b)" and i2: "inner (p2 b)" and ia: "inner ap"
    and ane: "board b ! nat ap \<noteq> EMPTY"
    by (auto simp: node_ok_def wf_grid_def)
  from hasLost_inner[OF len ia] obtain l where l: "hasLost b ap = Some l" by blast
  have ar: "0 \<le> ap" "ap < 49" "ap \<noteq> 0" using inner_bounds[OF ia] by auto
  let ?player = "board b ! nat ap"
  have rp: "rd (board b) ap = Some ?player" using ar len by (simp add: rd_def)
  show ?case
  proof (cases l)
    case True
    have "- 1000 \<le> LOSS_VALUE + depth" "LOSS_VALUE + depth \<le> 1000"
      using Suc.prems(3,4) by (simp_all add: LOSS_VALUE_def)
    then show ?thesis using l True by (simp add: fail_soft_def)
  next
    case False
    show ?thesis
    proof (cases "depth = md")
      case True
      from getScore_total[OF wf i1 i2] obtain s where
        s: "getScore b ?player = Some s" "- 384 \<le> s" "s \<le> 384" by blast
      then show ?thesis using l False rp True by (simp add: fail_soft_def)
    next
      case dm: False
      let ?cands = "ray_moves (board b) ap"
      let ?child = "\<lambda>pos. b\<lparr>board := (board b)[nat pos := ?player]\<rparr>"
      define cv where
        "cv = (\<lambda>pos a c. fst (the (negamax n md (?child pos) pp pos (depth + 1) a c None)))"
      define ce where
        "ce = (\<lambda>pos. the (exhaustive n md (?child pos) pp pos (depth + 1)))"
      let ?rec = "\<lambda>b' pos alpha' beta'.
                      map_option (\<lambda>r. (fst r, fst (snd r)))
                        (negamax n md b' pp pos (depth + 1) alpha' beta' None)"
      have ne: "?cands \<noteq> []" using hasLost_False_moves[of b ap] l False ar by simp
      have child: "negamax n md (?child pos) pp pos (depth + 1) a c None
              = Some (cv pos a c, ?child pos, None) \<and>
          - 1000 \<le> cv pos a c \<and> cv pos a c \<le> 1000 \<and>
          exhaustive n md (?child pos) pp pos (depth + 1) = Some (ce pos) \<and>
          - 1000 \<le> ce pos \<and> ce pos \<le> 1000 \<and>
          (- INF_VALUE \<le> a \<and> a < c \<and> c \<le> INF_VALUE \<longrightarrow> fail_soft (cv pos a c) (ce pos) a c)"
        if "pos \<in> set ?cands" for pos a c
      proof -
        from that have e: "rd (board b) pos = Some EMPTY"
          by (auto simp: ray_moves_def dest: ray_cells_empty)
        have ok': "node_ok (?child pos) pp pos" using child_node_ok[OF ok e refl] .
        have em: "Suc (empties (board (?child pos))) = empties (board b)"
          using empties_update[OF e ane] by simp
        then have f': "empties (board (?child pos)) < n" using Suc.prems(2) by simp
        have d0: "0 \<le> depth + 1" using Suc.prems(3) by simp
        have d1: "depth + 1 + int (empties (board (?child pos))) \<le> 2000"
          using Suc.prems(4) em by simp
        from Suc.IH[OF ok' f' d0 d1, of a c None] obtain v ee bm' where
          "negamax n md (?child pos) pp pos (depth + 1) a c None = Some (v, ?child pos, bm')"
          "bm' = None" "- 1000 \<le> v" "v \<le> 1000"
          "exhaustive n md (?child pos) pp pos (depth + 1) = Some ee" "- 1000 \<le> ee" "ee \<le> 1000"
          "- INF_VALUE \<le> a \<and> a < c \<and> c \<le> INF_VALUE \<longrightarrow> fail_soft v ee a c"
          by auto
        then show ?thesis by (simp add: cv_def ce_def)
      qed
      have rec: "\<forall>pos \<in> set (concat (map (ray_cells (board b) ap) MOVES)). \<forall>a c.
          ?rec (?child pos) pos a c = Some (cv pos a c, ?child pos)"
      proof (intro ballI allI)
        fix pos a c assume "pos \<in> set (concat (map (ray_cells (board b) ap) MOVES))"
        then have "pos \<in> set ?cands" by (simp add: ray_moves_def)
        from child[OF this, of a c]
        have "negamax n md (?child pos) pp pos (depth + 1) a c None
                = Some (cv pos a c, ?child pos, None)" by blast
        then show "?rec (?child pos) pos a c = Some (cv pos a c, ?child pos)" by simp
      qed
      let ?res = "ab_loop cv beta ?cands alpha (- INF_VALUE) bm"
      have dirs: "negamax_dirs ?rec ?player beta ap MOVES b alpha (- INF_VALUE) bm
          = Some (ab_value ?res, b, ab_move ?res)"
        using negamax_dirs_refines[where rec="?rec" and cv=cv and player="?player"
            and ms=MOVES and b=b and ap=ap, OF wf ia subset_refl rec]
        by (simp add: ray_moves_def)
      have nm: "negamax (Suc n) md b ap pp depth alpha beta bm = Some (ab_value ?res, b, ab_move ?res)"
        using l False rp dm dirs by simp
      have th: "those (map (\<lambda>pos. map_option uminus
                   (exhaustive n md (?child pos) pp pos (depth + 1))) ?cands)
                 = Some (map (\<lambda>pos. - ce pos) ?cands)"
      proof (rule those_map_Some, rule ballI)
        fix pos assume "pos \<in> set ?cands"
        from child[OF this, of 0 0]
        have "exhaustive n md (?child pos) pp pos (depth + 1) = Some (ce pos)" by blast
        then show "map_option uminus (exhaustive n md (?child pos) pp pos (depth + 1))
            = Some (- ce pos)" by simp
      qed
      let ?e = "fold max (map (\<lambda>pos. - ce pos) ?cands) (- INF_VALUE)"
      have ex: "exhaustive (Suc n) md b ap pp depth = Some ?e"
        using l False rp dm th by simp
      have cvb: "\<forall>c \<in> set ?cands. \<forall>a b. - 1000 \<le> cv c a b \<and> cv c a b \<le> 1000"
        using child by blast
      have vb: "ab_value ?res \<le> 1000 \<and> - 1000 \<le> ab_value ?res \<and> (bm = None \<longleftrightarrow> ab_move ?res = None)"
        using ab_loop_bounds[OF cvb, of "- INF_VALUE" beta alpha bm] ne
        by (simp add: INF_VALUE_def)
      have ceb: "\<forall>x \<in> set (map (\<lambda>pos. - ce pos) ?cands). - 1000 \<le> x \<and> x \<le> 1000"
      proof
        fix x assume "x \<in> set (map (\<lambda>pos. - ce pos) ?cands)"
        then obtain pos where p: "pos \<in> set ?cands" and x: "x = - ce pos" by auto
        from child[OF p, of 0 0] have "- 1000 \<le> ce pos" "ce pos \<le> 1000" by blast+
        with x show "- 1000 \<le> x \<and> x \<le> 1000" by simp
      qed
      have eb: "?e \<le> 1000 \<and> - 1000 \<le> ?e"
        using fold_max_bounds[OF ceb, of "- INF_VALUE"] ne by (simp add: INF_VALUE_def)
      have fs: "- INF_VALUE \<le> alpha \<and> alpha < beta \<and> beta \<le> INF_VALUE \<longrightarrow>
          fail_soft (ab_value ?res) ?e alpha beta"
      proof
        assume w: "- INF_VALUE \<le> alpha \<and> alpha < beta \<and> beta \<le> INF_VALUE"
        have ch: "\<forall>c \<in> set ?cands. \<forall>a b. - INF_VALUE \<le> a \<and> a < b \<and> b \<le> INF_VALUE \<longrightarrow>
            fail_soft (cv c a b) (ce c) a b"
          using child by blast
        from w have m: "alpha = max alpha (- INF_VALUE)" by simp
        from w have w1: "- INF_VALUE \<le> alpha" and w2: "beta \<le> INF_VALUE" and w3: "alpha < beta"
          by auto
        show "fail_soft (ab_value ?res) ?e alpha beta"
          using ab_loop_fail_soft[where cv=cv and ce=ce and cands="?cands" and a_init=alpha
              and alpha=alpha and beta=beta and best="- INF_VALUE" and e_acc="- INF_VALUE" and bm=bm,
              OF ch w1 w2 order_refl w3 m]
          by simp
      qed
      show ?thesis using nm ex vb eb fs by simp
    qed
  qed
qed


lemma empties_le: "empties brd \<le> length brd"
  unfolding empties_def by (induction brd) auto

lemma wf_board_node_ok:
  assumes "wf_board b"
  shows "node_ok b (if player = P1 then p1 b else p2 b) (if player = P1 then p2 b else p1 b)"
proof -
  from assms have len: "length (board b) = 49" and i1: "inner (p1 b)" and i2: "inner (p2 b)"
    and r1: "rd (board b) (p1 b) = Some P1" and r2: "rd (board b) (p2 b) = Some P2"
    by (auto simp: wf_board_def wf_grid_def)
  from r1 r2 have "board b ! nat (p1 b) \<noteq> EMPTY" "board b ! nat (p2 b) \<noteq> EMPTY"
    by (auto simp: rd_def P1_def P2_def EMPTY_def split: if_splits)
  then show ?thesis using assms i1 i2 by (simp add: node_ok_def wf_board_def)
qed

text \<open>
  C1: on a well-formed board, with fuel for one nested call per empty cell, the root
  call that \<open>getMove\<close> makes (depth 1, window \<open>(- INF_VALUE, INF_VALUE)\<close>) returns,
  and its value is the value of the exhaustive search of the same depth, for every
  \<open>max_depth\<close>.
\<close>

theorem alpha_beta_exact:
  "wf_board b \<Longrightarrow> empties (board b) < fuel \<Longrightarrow>
   \<exists>v move.
     negamax fuel max_depth b (if player = P1 then p1 b else p2 b)
        (if player = P1 then p2 b else p1 b) 1 (- INF_VALUE) INF_VALUE (Some 0)
       = Some (v, b, move) \<and>
     exhaustive fuel max_depth b (if player = P1 then p1 b else p2 b)
        (if player = P1 then p2 b else p1 b) 1
       = Some v"
proof -
  assume wf: "wf_board b" and f: "empties (board b) < fuel"
  let ?ap = "if player = P1 then p1 b else p2 b"
  let ?pp = "if player = P1 then p2 b else p1 b"
  have ok: "node_ok b ?ap ?pp" using wf_board_node_ok[OF wf] .
  have "length (board b) = 49" using wf by (simp add: wf_board_def wf_grid_def)
  then have d: "1 + int (empties (board b)) \<le> 2000" using empties_le[of "board b"] by simp
  from negamax_node[OF ok f _ d, of max_depth "- INF_VALUE" INF_VALUE "Some 0"]
  obtain v e bm' where n: "negamax fuel max_depth b ?ap ?pp 1 (- INF_VALUE) INF_VALUE (Some 0)
        = Some (v, b, bm')"
    and vb: "- 1000 \<le> v" "v \<le> 1000"
    and ex: "exhaustive fuel max_depth b ?ap ?pp 1 = Some e"
    and fs: "fail_soft v e (- INF_VALUE) INF_VALUE"
    by (auto simp: INF_VALUE_def)
  from fs vb have "e = v" by (simp add: fail_soft_def INF_VALUE_def)
  with n ex show ?thesis by simp
qed

text \<open>
  C4: on a well-formed board, with fuel for one nested call per empty cell,
  \<open>getMove\<close> returns, and the board it leaves (the cells and both stored positions)
  is the board it was called with, for every \<open>max_depth\<close>.
\<close>

theorem getMove_restores_board:
  "wf_board b \<Longrightarrow> empties (board b) < fuel \<Longrightarrow>
   \<exists>move. getMove fuel b player max_depth = Some (move, b)"
proof -
  assume wf: "wf_board b" and f: "empties (board b) < fuel"
  let ?ap = "if player = P1 then p1 b else p2 b"
  let ?pp = "if player = P1 then p2 b else p1 b"
  have ok: "node_ok b ?ap ?pp" using wf_board_node_ok[OF wf] .
  have "length (board b) = 49" using wf by (simp add: wf_board_def wf_grid_def)
  then have d: "1 + int (empties (board b)) \<le> 2000" using empties_le[of "board b"] by simp
  from negamax_node[OF ok f _ d, of max_depth "- INF_VALUE" INF_VALUE "Some 0"]
  obtain v bm' where n: "negamax fuel max_depth b ?ap ?pp 1 (- INF_VALUE) INF_VALUE (Some 0)
        = Some (v, b, bm')" and "bm' \<noteq> None"
    by auto
  then obtain m where "bm' = Some m" by auto
  with n show ?thesis by (simp add: getMove_def Let_def)
qed

lemma wf_board_end: "wf_board board_end"
  by code_simp

lemma empties_board_end: "empties (board board_end) < 12"
  by code_simp


theorem alpha_beta_exact_witness:
  "wf_board board_end \<and> empties (board board_end) < 12 \<and>
   negamax 12 3 board_end 16 25 1 (- INF_VALUE) INF_VALUE (Some 0) = Some (- 28, board_end, Some 15) \<and>
   exhaustive 12 3 board_end 16 25 1 = Some (- 28)"
proof -
  have n: "negamax 12 3 board_end 16 25 1 (- INF_VALUE) INF_VALUE (Some 0)
      = Some (- 28, board_end, Some 15)" by code_simp
  have p: "p1 board_end = 16" "p2 board_end = 25" by (simp_all add: board_end_def)
  from alpha_beta_exact[OF wf_board_end empties_board_end, of 3 P1] n p
  show ?thesis using wf_board_end empties_board_end by simp
qed

theorem getMove_restores_board_witness:
  "wf_board board_end \<and> empties (board board_end) < 12 \<and>
   getMove 12 board_end P1 3 = Some (15, board_end)"
proof -
  have n: "getMove 12 board_end P1 3 = Some (15, board_end)" by code_simp
  from getMove_restores_board[OF wf_board_end empties_board_end, of P1 3] n
  show ?thesis using wf_board_end empties_board_end by simp
qed

end
